theory Spec2Isabelle
  imports Complex_Main "HOL-Library.Word" "HOL-Library.AList"
begin

section \<open>Compile-time constants\<close>

text \<open>
  \<open>cnode.cpp\<close> uses the constants \<open>NUM_ACTION_HEADS\<close>, \<open>ACTIONS_PER_PLAYER\<close> and
  \<open>TOTAL_ACTIONS\<close> (declared in \<open>cnode.h\<close>) and \<open>FLOAT_MIN\<close> (declared in
  \<open>common_lib/utils.cpp\<close>).  Their declarations are not part of the sources at hand, so
  they are parameters of every function that reads them.  The file's header comment fixes
  their relation: the total action space is
  \<open>TOTAL_ACTIONS (ACTIONS_PER_PLAYER * NUM_ACTION_HEADS)\<close>.
\<close>

record config =
  NUM_ACTION_HEADS :: nat
  ACTIONS_PER_PLAYER :: nat
  TOTAL_ACTIONS :: nat
  FLOAT_MIN :: real

text \<open>
  The constants are positive C \<open>int\<close>s and \<open>TOTAL_ACTIONS\<close> is the product named in
  the header comment.
\<close>

definition cfg_ok :: "config \<Rightarrow> bool" where
  "cfg_ok cfg \<longleftrightarrow>
     0 < NUM_ACTION_HEADS cfg \<and> 0 < ACTIONS_PER_PLAYER cfg \<and>
     TOTAL_ACTIONS cfg = ACTIONS_PER_PLAYER cfg * NUM_ACTION_HEADS cfg \<and>
     TOTAL_ACTIONS cfg < 2 ^ 31"

section \<open>Nodes and the store\<close>

text \<open>
  The tree is a heap of \<open>CNode\<close> objects linked by raw pointers.  The store is a list of
  nodes; an address is an index into it, and \<open>new CNode(...)\<close> appends a node.  The
  \<open>float\<close> fields of a node and the \<open>float\<close> arguments of the functions are finite
  numbers, kept as reals, and the arithmetic on them is exact, except in the scores of
  \<open>cselect_child\<close>: these are computed in the single-precision arithmetic defined
  below, with its rounding, its infinities and NaN.  The children table is the map from
  action keys to node pointers of \<open>cnode.h\<close>, kept as an association list with distinct
  keys, so that \<open>children.size()\<close> is its length.
\<close>

type_synonym addr = nat

record CNode =
  prior :: real
  legal_actions :: "int list"
  is_reset :: int
  visit_count :: int
  value_sum :: real
  best_action :: "int list"
  to_play :: int
  value_prefix :: real
  parent_value_prefix :: real
  current_latent_state_index :: int
  batch_index :: int
  children :: "(nat \<times> addr) list"

type_synonym heap = "CNode list"

text \<open>\<open>CNode::CNode(float prior, std::vector<int> &legal_actions)\<close>.\<close>

definition new_CNode :: "real \<Rightarrow> int list \<Rightarrow> CNode" where
  "new_CNode p legal =
     \<lparr> prior = p, legal_actions = legal, is_reset = 0, visit_count = 0, value_sum = 0,
       best_action = [-1, -1, -1, -1], to_play = 0, value_prefix = 0,
       parent_value_prefix = 0, current_latent_state_index = -1, batch_index = -1,
       children = [] \<rparr>"

text \<open>Dereferencing a pointer; an address outside the store is undefined behaviour.\<close>

definition deref :: "heap \<Rightarrow> addr \<Rightarrow> CNode option" where
  "deref h p = (if p < length h then Some (h ! p) else None)"


definition value_of :: "CNode \<Rightarrow> real" where
  "value_of n =
     (if visit_count n = 0 then 0 else value_sum n / real_of_int (visit_count n))"

section \<open>Action keys\<close>

text \<open>
  \<open>CNode::get_child(uint64_t action)\<close>.  The result is \<open>None\<close> for \<open>nullptr\<close>.  The key is
  compared with the number of entries of the table before it is looked up.  For a key
  below that number and absent from the table, \<open>children[action]\<close> inserts a null entry
  before \<open>nullptr\<close> is returned; every caller dereferences the result, which is
  undefined behaviour, before the table is read again, so the inserted entry is never
  observed and is not modelled.
\<close>

definition get_child :: "CNode \<Rightarrow> 64 word \<Rightarrow> addr option" where
  "get_child n action =
     (if unat action \<ge> length (children n) \<or> map_of (children n) (unat action) = None
      then None
      else map_of (children n) (unat action))"

text \<open>
  \<open>CNode::encode_action\<close>: the loop over \<open>i < NUM_ACTION_HEADS && i < actions.size()\<close>,
  with \<open>encoded\<close> a \<open>uint64_t\<close>, and the final clamp.
\<close>

fun encode_loop :: "config \<Rightarrow> int list \<Rightarrow> nat \<Rightarrow> 64 word \<Rightarrow> 64 word" where
  "encode_loop cfg [] i encoded = encoded"
| "encode_loop cfg (a # as) i encoded =
     (if i < NUM_ACTION_HEADS cfg
      then encode_loop cfg as (i + 1)
             (if 0 \<le> a \<and> a < int (ACTIONS_PER_PLAYER cfg)
              then encoded + (word_of_int a + of_nat i * of_nat (ACTIONS_PER_PLAYER cfg))
              else encoded)
      else encoded)"

definition encode_action :: "config \<Rightarrow> int list \<Rightarrow> 64 word" where
  "encode_action cfg actions =
     (let encoded = encode_loop cfg actions 0 0
      in if encoded < of_nat (TOTAL_ACTIONS cfg) then encoded
         else of_nat (TOTAL_ACTIONS cfg) - 1)"

text \<open>\<open>CNode::get_child(std::vector<int> actions)\<close>.\<close>

definition get_child_vec :: "config \<Rightarrow> CNode \<Rightarrow> int list \<Rightarrow> addr option" where
  "get_child_vec cfg n actions =
     (if length actions \<noteq> NUM_ACTION_HEADS cfg then None
      else let action_key = encode_action cfg actions
           in if unat action_key \<ge> length (children n)
                 \<or> map_of (children n) (unat action_key) = None
              then None
              else map_of (children n) (unat action_key))"


section \<open>Min-max statistics\<close>

text \<open>
  Modelled from the spec: the class \<open>tools::CMinMaxStats\<close> (\<open>cminimax.h\<close>) is not among
  the sources.  The spec: it maintains running \<open>minimum\<close> and \<open>maximum\<close> over all Q
  candidates submitted via \<open>update(q)\<close>; \<open>normalize(q)\<close> returns
  \<open>(q - min)/(max - min)\<close> when \<open>max > min\<close>, else \<open>q\<close> unchanged.  The functions of
  \<open>cnode.cpp\<close> that use a \<open>CMinMaxStats\<close> take its two operations as parameters
  (\<open>upd\<close> for \<open>update\<close>, \<open>normalise\<close> for \<open>normalize\<close>); the record below instantiates
  them.
\<close>

record CMinMaxStats =
  maximum :: real
  minimum :: real


definition CMinMaxStats_normalize :: "CMinMaxStats \<Rightarrow> real \<Rightarrow> real" where
  "CMinMaxStats_normalize s q =
     (if maximum s > minimum s then (q - minimum s) / (maximum s - minimum s) else q)"

section \<open>Expansion and root noise\<close>

text \<open>
  \<open>CNode::expand\<close>.  The three loops over \<open>legal_actions\<close>: the maximum logit (starting
  from \<open>FLOAT_MIN\<close>), the sum of the exponentials, and the creation of one child per
  legal action with \<open>children[a] = new CNode(prior, tmp_empty)\<close>.  A legal action outside
  \<open>0..<policy_logits.size()\<close> reads \<open>policy_logits\<close> out of bounds: undefined
  behaviour, \<open>None\<close>.
\<close>

definition policy_max_of :: "config \<Rightarrow> real list \<Rightarrow> int list \<Rightarrow> real" where
  "policy_max_of cfg policy_logits legal =
     fold (\<lambda>a policy_max.
             if policy_max < policy_logits ! nat a then policy_logits ! nat a else policy_max)
          legal (FLOAT_MIN cfg)"

definition policy_sum_of :: "real list \<Rightarrow> real \<Rightarrow> int list \<Rightarrow> real" where
  "policy_sum_of policy_logits policy_max legal =
     fold (\<lambda>a policy_sum. policy_sum + exp (policy_logits ! nat a - policy_max)) legal 0"

fun expand_children :: "real list \<Rightarrow> real \<Rightarrow> real \<Rightarrow> addr \<Rightarrow> int list \<Rightarrow> heap \<Rightarrow> heap" where
  "expand_children policy_logits policy_max policy_sum p [] h = h"
| "expand_children policy_logits policy_max policy_sum p (a # as) h =
     (let pr = exp (policy_logits ! nat a - policy_max) / policy_sum;
          c = length h;
          h1 = h @ [new_CNode pr []];
          h2 = h1[p := (h1 ! p)\<lparr> children := AList.update (nat a) c (children (h1 ! p)) \<rparr>]
      in expand_children policy_logits policy_max policy_sum p as h2)"

definition expand ::
  "config \<Rightarrow> addr \<Rightarrow> int \<Rightarrow> int \<Rightarrow> int \<Rightarrow> real \<Rightarrow> real list \<Rightarrow> heap \<Rightarrow> heap option" where
  "expand cfg p to_play' current_latent_state_index' batch_index' value_prefix' policy_logits h =
     (case deref h p of
        None \<Rightarrow> None
      | Some node \<Rightarrow>
          let action_num = length policy_logits;
              legal = (if legal_actions node = [] then map int [0..<action_num]
                       else legal_actions node);
              node1 = node\<lparr> to_play := to_play',
                            current_latent_state_index := current_latent_state_index',
                            batch_index := batch_index',
                            value_prefix := value_prefix',
                            legal_actions := legal \<rparr>
          in if list_ex (\<lambda>a. a < 0 \<or> int action_num \<le> a) legal then None
             else let policy_max = policy_max_of cfg policy_logits legal;
                      policy_sum = policy_sum_of policy_logits policy_max legal
                  in Some (expand_children policy_logits policy_max policy_sum p legal
                             (h[p := node1])))"

text \<open>
  \<open>CNode::add_exploration_noise\<close>: for every index \<open>i\<close> of \<open>legal_actions\<close> the child
  \<open>get_child(legal_actions[i])\<close> is dereferenced and its prior is mixed with
  \<open>noises[i]\<close>.  A null child or an index past \<open>noises\<close> is undefined behaviour.
\<close>

fun add_noise_loop :: "real \<Rightarrow> real list \<Rightarrow> addr \<Rightarrow> int list \<Rightarrow> nat \<Rightarrow> heap \<Rightarrow> heap option" where
  "add_noise_loop exploration_fraction noises p [] i h = Some h"
| "add_noise_loop exploration_fraction noises p (a # as) i h =
     (if length noises \<le> i then None
      else case deref h p of
        None \<Rightarrow> None
      | Some node \<Rightarrow>
         (case get_child node (word_of_int a) of
            None \<Rightarrow> None
          | Some c \<Rightarrow>
             (case deref h c of
                None \<Rightarrow> None
              | Some child \<Rightarrow>
                  add_noise_loop exploration_fraction noises p as (i + 1)
                    (h[c := child\<lparr> prior := prior child * (1 - exploration_fraction)
                                              + (noises ! i) * exploration_fraction \<rparr>]))))"

definition add_exploration_noise :: "real \<Rightarrow> real list \<Rightarrow> addr \<Rightarrow> heap \<Rightarrow> heap option" where
  "add_exploration_noise exploration_fraction noises p h =
     (case deref h p of
        None \<Rightarrow> None
      | Some node \<Rightarrow> add_noise_loop exploration_fraction noises p (legal_actions node) 0 h)"

text \<open>
  \<open>visit_count += 1\<close> on a C \<open>int\<close>: overflow past \<open>INT_MAX\<close> is undefined behaviour.
\<close>

definition INT_MAX :: int where
  "INT_MAX = 2147483647"

definition incr_visit_count :: "CNode \<Rightarrow> CNode option" where
  "incr_visit_count n =
     (if visit_count n < INT_MAX then Some (n\<lparr> visit_count := visit_count n + 1 \<rparr>)
      else None)"

section \<open>Roots\<close>

text \<open>
  \<open>CRoots\<close> keeps its root nodes by value in a vector; here they are cells of the store
  and \<open>roots\<close> lists their addresses.  The constructor pushes
  \<open>CNode(0, legal_actions_list[i])\<close> for every \<open>i < root_num\<close>.
\<close>

record CRoots =
  root_num :: int
  roots :: "addr list"
  legal_actions_list :: "int list list"

definition new_CRoots :: "int \<Rightarrow> int list list \<Rightarrow> heap \<Rightarrow> (CRoots \<times> heap) option" where
  "new_CRoots root_num' legal_actions_list' h =
     (if int (length legal_actions_list') < root_num' then None
      else Some (\<lparr> root_num = root_num',
                    roots = [length h ..< length h + nat root_num'],
                    legal_actions_list = legal_actions_list' \<rparr>,
                 h @ map (new_CNode 0) (take (nat root_num') legal_actions_list')))"

text \<open>
  \<open>CRoots::prepare\<close>: expand root \<open>i\<close> with depth \<open>0\<close> and batch index \<open>i\<close>, add the
  noise, count one visit.
\<close>

fun prepare_loop ::
  "config \<Rightarrow> real \<Rightarrow> real list list \<Rightarrow> real list \<Rightarrow> real list list \<Rightarrow> int list \<Rightarrow>
   addr list \<Rightarrow> nat list \<Rightarrow> heap \<Rightarrow> heap option" where
  "prepare_loop cfg root_noise_weight noises value_prefixs policies to_play_batch rs [] h = Some h"
| "prepare_loop cfg root_noise_weight noises value_prefixs policies to_play_batch rs (i # is) h =
     (if length rs \<le> i \<or> length to_play_batch \<le> i \<or> length value_prefixs \<le> i
         \<or> length policies \<le> i \<or> length noises \<le> i
      then None
      else case expand cfg (rs ! i) (to_play_batch ! i) 0 (int i) (value_prefixs ! i)
                  (policies ! i) h of
        None \<Rightarrow> None
      | Some h1 \<Rightarrow>
         (case add_exploration_noise root_noise_weight (noises ! i) (rs ! i) h1 of
            None \<Rightarrow> None
          | Some h2 \<Rightarrow>
             (case deref h2 (rs ! i) of
                None \<Rightarrow> None
              | Some n \<Rightarrow>
                 (case incr_visit_count n of
                    None \<Rightarrow> None
                  | Some n' \<Rightarrow>
                      prepare_loop cfg root_noise_weight noises value_prefixs policies
                        to_play_batch rs is (h2[rs ! i := n'])))))"

definition prepare ::
  "config \<Rightarrow> CRoots \<Rightarrow> real \<Rightarrow> real list list \<Rightarrow> real list \<Rightarrow> real list list \<Rightarrow> int list \<Rightarrow>
   heap \<Rightarrow> heap option" where
  "prepare cfg R root_noise_weight noises value_prefixs policies to_play_batch h =
     prepare_loop cfg root_noise_weight noises value_prefixs policies to_play_batch
       (roots R) [0..<nat (root_num R)] h"

section \<open>Mean Q\<close>

text \<open>
  \<open>CNode::compute_mean_q\<close>: the loop over the heads \<open>i\<close> and the legal actions \<open>a\<close>,
  looking up \<open>get_child(a + i * ACTIONS_PER_PLAYER)\<close> and reading
  \<open>child->visit_count\<close> with no null check.
\<close>

fun mean_q_actions ::
  "config \<Rightarrow> heap \<Rightarrow> CNode \<Rightarrow> real \<Rightarrow> nat \<Rightarrow> int list \<Rightarrow> real \<times> int \<Rightarrow> (real \<times> int) option" where
  "mean_q_actions cfg h node discount_factor i [] acc = Some acc"
| "mean_q_actions cfg h node discount_factor i (a # as) (total_unsigned_q, total_visits) =
     (case get_child node (word_of_int (a + int i * int (ACTIONS_PER_PLAYER cfg))) of
        None \<Rightarrow> None
      | Some c \<Rightarrow>
         (case deref h c of
            None \<Rightarrow> None
          | Some child \<Rightarrow>
              if visit_count child > 0
              then let true_reward = (if is_reset node = 1 then value_prefix child
                                      else value_prefix child - value_prefix node);
                       qsa = true_reward + discount_factor * value_of child
                   in mean_q_actions cfg h node discount_factor i as
                        (total_unsigned_q + qsa, total_visits + 1)
              else mean_q_actions cfg h node discount_factor i as
                     (total_unsigned_q, total_visits)))"

fun mean_q_heads ::
  "config \<Rightarrow> heap \<Rightarrow> CNode \<Rightarrow> real \<Rightarrow> nat list \<Rightarrow> real \<times> int \<Rightarrow> (real \<times> int) option" where
  "mean_q_heads cfg h node discount_factor [] acc = Some acc"
| "mean_q_heads cfg h node discount_factor (i # is) acc =
     (case mean_q_actions cfg h node discount_factor i (legal_actions node) acc of
        None \<Rightarrow> None
      | Some acc' \<Rightarrow> mean_q_heads cfg h node discount_factor is acc')"

definition compute_mean_q :: "config \<Rightarrow> heap \<Rightarrow> addr \<Rightarrow> int \<Rightarrow> real \<Rightarrow> real \<Rightarrow> real option" where
  "compute_mean_q cfg h p isRoot parent_q discount_factor =
     (case deref h p of
        None \<Rightarrow> None
      | Some node \<Rightarrow>
         (case mean_q_heads cfg h node discount_factor [0..<NUM_ACTION_HEADS cfg] (0, 0) of
            None \<Rightarrow> None
          | Some (total_unsigned_q, total_visits) \<Rightarrow>
              Some (if isRoot \<noteq> 0 \<and> total_visits > 0
                    then total_unsigned_q / real_of_int total_visits
                    else (parent_q + total_unsigned_q) / real_of_int (total_visits + 1))))"

section \<open>Single-precision arithmetic\<close>

text \<open>
  A value of the type \<open>float\<close> as \<open>cucb_score\<close> and \<open>cselect_child\<close> compute with it:
  NaN, the two infinities, or a finite number.  The format is IEEE 754 binary32
  (24 bits of precision, exponents from \<open>-126\<close> to \<open>127\<close>, subnormal numbers), every
  operation rounds its exact result once, to the nearest value, ties to the even
  mantissa, and a result beyond \<open>FLT_MAX\<close> becomes an infinity.  The two zeros are not
  told apart: a zero divisor counts as \<open>+0\<close>.
\<close>

datatype float = NaN | NInf | Fin real | PInf

definition FLT_MAX :: real where
  "FLT_MAX = (2 ^ 24 - 1) * 2 ^ 104"

definition round_half_even :: "real \<Rightarrow> int" where
  "round_half_even t =
     (let f = \<lfloor>t\<rfloor>; r = t - real_of_int f
      in if r < 1 / 2 then f else if 1 / 2 < r then f + 1 else if even f then f else f + 1)"

definition pow2 :: "int \<Rightarrow> real" where
  "pow2 k = 2 powr real_of_int k"

definition f32_round :: "real \<Rightarrow> float" where
  "f32_round x =
     (if x = 0 then Fin 0
      else let e = max (- 126) \<lfloor>log 2 \<bar>x\<bar>\<rfloor>;
               ulp = pow2 (e - 23);
               y = real_of_int (round_half_even (x / ulp)) * ulp
           in if FLT_MAX < \<bar>y\<bar> then (if 0 < x then PInf else NInf) else Fin y)"

text \<open>The conversion of an \<open>int\<close>, and the operations that the scores use.\<close>

definition float_of_int :: "int \<Rightarrow> float" where
  "float_of_int n = f32_round (real_of_int n)"

fun fneg :: "float \<Rightarrow> float" where
  "fneg NaN = NaN"
| "fneg NInf = PInf"
| "fneg (Fin x) = Fin (- x)"
| "fneg PInf = NInf"

fun fadd :: "float \<Rightarrow> float \<Rightarrow> float" where
  "fadd (Fin x) (Fin y) = f32_round (x + y)"
| "fadd NaN b = NaN"
| "fadd a NaN = NaN"
| "fadd PInf NInf = NaN"
| "fadd NInf PInf = NaN"
| "fadd PInf b = PInf"
| "fadd NInf b = NInf"
| "fadd a PInf = PInf"
| "fadd a NInf = NInf"

definition fsub :: "float \<Rightarrow> float \<Rightarrow> float" where
  "fsub a b = fadd a (fneg b)"

fun fmul :: "float \<Rightarrow> float \<Rightarrow> float" where
  "fmul (Fin x) (Fin y) = f32_round (x * y)"
| "fmul NaN b = NaN"
| "fmul a NaN = NaN"
| "fmul (Fin x) PInf = (if x = 0 then NaN else if 0 < x then PInf else NInf)"
| "fmul (Fin x) NInf = (if x = 0 then NaN else if 0 < x then NInf else PInf)"
| "fmul PInf (Fin y) = (if y = 0 then NaN else if 0 < y then PInf else NInf)"
| "fmul NInf (Fin y) = (if y = 0 then NaN else if 0 < y then NInf else PInf)"
| "fmul PInf PInf = PInf"
| "fmul PInf NInf = NInf"
| "fmul NInf PInf = NInf"
| "fmul NInf NInf = PInf"

fun fdiv :: "float \<Rightarrow> float \<Rightarrow> float" where
  "fdiv (Fin x) (Fin y) =
     (if y = 0 then (if x = 0 then NaN else if 0 < x then PInf else NInf)
      else f32_round (x / y))"
| "fdiv NaN b = NaN"
| "fdiv a NaN = NaN"
| "fdiv (Fin x) PInf = Fin 0"
| "fdiv (Fin x) NInf = Fin 0"
| "fdiv PInf (Fin y) = (if 0 \<le> y then PInf else NInf)"
| "fdiv NInf (Fin y) = (if 0 \<le> y then NInf else PInf)"
| "fdiv PInf b = NaN"
| "fdiv NInf b = NaN"

text \<open>
  \<open>sqrt\<close> and \<open>log\<close> are applied to \<open>float\<close> operands and are taken at that type.
  \<open>sqrt\<close> is correctly rounded; \<open>log\<close> of the C library is taken as correctly rounded
  too, with \<open>-\<infinity>\<close> at zero and NaN below.
\<close>

fun fsqrt :: "float \<Rightarrow> float" where
  "fsqrt NaN = NaN"
| "fsqrt NInf = NaN"
| "fsqrt (Fin x) = (if x < 0 then NaN else f32_round (sqrt x))"
| "fsqrt PInf = PInf"

fun flog :: "float \<Rightarrow> float" where
  "flog NaN = NaN"
| "flog NInf = NaN"
| "flog (Fin x) = (if x < 0 then NaN else if x = 0 then NInf else f32_round (ln x))"
| "flog PInf = PInf"

text \<open>The comparisons \<open><\<close> and \<open>>=\<close>: both are false when an operand is NaN.\<close>

fun flt :: "float \<Rightarrow> float \<Rightarrow> bool" where
  "flt (Fin x) (Fin y) \<longleftrightarrow> x < y"
| "flt NaN b \<longleftrightarrow> False"
| "flt a NaN \<longleftrightarrow> False"
| "flt a NInf \<longleftrightarrow> False"
| "flt PInf b \<longleftrightarrow> False"
| "flt NInf b \<longleftrightarrow> True"
| "flt a PInf \<longleftrightarrow> True"

definition fge :: "float \<Rightarrow> float \<Rightarrow> bool" where
  "fge a b \<longleftrightarrow> a \<noteq> NaN \<and> b \<noteq> NaN \<and> \<not> flt a b"

section \<open>Child selection\<close>

text \<open>
  \<open>CNode::value\<close> in single precision: the quotient of the \<open>float\<close> \<open>value_sum\<close> and the
  \<open>int\<close> \<open>visit_count\<close>, which is converted to \<open>float\<close> first.
\<close>

definition value_float :: "CNode \<Rightarrow> float" where
  "value_float n =
     (if visit_count n = 0 then Fin 0
      else fdiv (Fin (value_sum n)) (float_of_int (visit_count n)))"

text \<open>
  \<open>cucb_score\<close>.  \<open>normalise\<close> is \<open>min_max_stats.normalize\<close>, which leaves a value that
  is not finite as it is; \<open>value_score\<close> keeps its initial \<open>0.0\<close> when \<open>players\<close> is
  neither 1 nor 2.  The parameters \<open>total_children_visit_counts\<close> and \<open>pb_c_base\<close> are
  the \<open>float\<close> conversions of the \<open>int\<close> values passed by \<open>cselect_child\<close>, and
  \<open>child->visit_count + 1\<close> is an \<open>int\<close> that the division converts.
\<close>

fun float_map :: "(real \<Rightarrow> real) \<Rightarrow> float \<Rightarrow> float" where
  "float_map f (Fin x) = Fin (f x)"
| "float_map f NaN = NaN"
| "float_map f NInf = NInf"
| "float_map f PInf = PInf"

definition cucb_score ::
  "(real \<Rightarrow> real) \<Rightarrow> CNode \<Rightarrow> real \<Rightarrow> int \<Rightarrow> float \<Rightarrow> real \<Rightarrow> float \<Rightarrow> real \<Rightarrow> real \<Rightarrow> int \<Rightarrow> float" where
  "cucb_score normalise child parent_mean_q is_reset' total_children_visit_counts
      parent_value_prefix' pb_c_base pb_c_init discount_factor players =
     (let pb_c0 = fadd (flog (fdiv (fadd (fadd total_children_visit_counts pb_c_base) (Fin 1))
                                   pb_c_base))
                       (Fin pb_c_init);
          pb_c = fmul pb_c0 (fdiv (fsqrt total_children_visit_counts)
                                  (float_of_int (visit_count child + 1)));
          prior_score = fmul pb_c (Fin (prior child));
          value_score0 =
            (if visit_count child = 0 then Fin parent_mean_q
             else let true_reward = (if is_reset' = 1 then Fin (value_prefix child)
                                     else fsub (Fin (value_prefix child))
                                               (Fin parent_value_prefix'))
                  in if players = 1
                     then fadd true_reward
                            (fmul (Fin discount_factor) (value_float child))
                     else if players = 2
                     then fadd true_reward
                            (fmul (Fin discount_factor) (fneg (value_float child)))
                     else Fin 0);
          value_score1 = float_map normalise value_score0;
          value_score = (if flt value_score1 (Fin 0) then Fin 0
                         else if flt (Fin 1) value_score1 then Fin 1 else value_score1)
      in fadd prior_score value_score)"

text \<open>
  \<open>cselect_child\<close>: the running maximum \<open>max_score\<close> (initially \<open>FLOAT_MIN\<close>) and the
  list \<open>max_index_lst\<close>, which is cleared at every strict improvement and extended by
  every later child whose score is at least \<open>max_score - epsilon\<close>, a single-precision
  difference.  The arguments \<open>root->visit_count - 1\<close> and \<open>child->visit_count + 1\<close> are
  \<open>int\<close> expressions, whose overflow is undefined behaviour.  \<open>rng k\<close> is the value the
  \<open>k\<close>-th call of \<open>rand()\<close> returns; the function returns the action vector and the
  number of calls made so far.
\<close>

definition epsilon :: float where
  "epsilon = f32_round (1 / 1000000)"

definition INT_MIN :: int where
  "INT_MIN = - 2147483648"

definition child_score ::
  "(real \<Rightarrow> real) \<Rightarrow> CNode \<Rightarrow> CNode \<Rightarrow> int \<Rightarrow> real \<Rightarrow> real \<Rightarrow> real \<Rightarrow> int \<Rightarrow> float" where
  "child_score normalise root_node child pb_c_base pb_c_init discount_factor mean_q players =
     cucb_score normalise child mean_q (is_reset root_node)
       (float_of_int (visit_count root_node - 1)) (value_prefix root_node)
       (float_of_int pb_c_base) pb_c_init discount_factor players"

fun select_loop ::
  "(real \<Rightarrow> real) \<Rightarrow> heap \<Rightarrow> CNode \<Rightarrow> int \<Rightarrow> real \<Rightarrow> real \<Rightarrow> real \<Rightarrow> int \<Rightarrow> int list \<Rightarrow>
   float \<times> int list \<Rightarrow> (float \<times> int list) option" where
  "select_loop normalise h root_node pb_c_base pb_c_init discount_factor mean_q players [] acc = Some acc"
| "select_loop normalise h root_node pb_c_base pb_c_init discount_factor mean_q players (a # as)
      (max_score, max_index_lst) =
     (case get_child root_node (word_of_int a) of
        None \<Rightarrow> None
      | Some c \<Rightarrow>
         (case deref h c of
            None \<Rightarrow> None
          | Some child \<Rightarrow>
              if visit_count root_node - 1 < INT_MIN \<or> INT_MAX < visit_count child + 1 then None
              else
              let temp_score = child_score normalise root_node child pb_c_base pb_c_init discount_factor
                                 mean_q players
              in if flt max_score temp_score
                 then select_loop normalise h root_node pb_c_base pb_c_init discount_factor mean_q players
                        as (temp_score, [a])
                 else if fge temp_score (fsub max_score epsilon)
                 then select_loop normalise h root_node pb_c_base pb_c_init discount_factor mean_q players
                        as (max_score, max_index_lst @ [a])
                 else select_loop normalise h root_node pb_c_base pb_c_init discount_factor mean_q players
                        as (max_score, max_index_lst)))"

definition cselect_child ::
  "config \<Rightarrow> (real \<Rightarrow> real) \<Rightarrow> heap \<Rightarrow> addr \<Rightarrow> int \<Rightarrow> real \<Rightarrow> real \<Rightarrow> real \<Rightarrow> int \<Rightarrow>
   (nat \<Rightarrow> nat) \<Rightarrow> nat \<Rightarrow> (int list \<times> nat) option" where
  "cselect_child cfg normalise h p pb_c_base pb_c_init discount_factor mean_q players rng k =
     (case deref h p of
        None \<Rightarrow> None
      | Some root_node \<Rightarrow>
         (case select_loop normalise h root_node pb_c_base pb_c_init discount_factor mean_q players
                 (legal_actions root_node) (Fin (FLOAT_MIN cfg), []) of
            None \<Rightarrow> None
          | Some (max_score, max_index_lst) \<Rightarrow>
              if length max_index_lst > 0
              then (if NUM_ACTION_HEADS cfg = 0 then None
                    else Some ((replicate (NUM_ACTION_HEADS cfg) (-1))
                                 [0 := max_index_lst ! (rng k mod length max_index_lst)],
                               k + 1))
              else Some (replicate (NUM_ACTION_HEADS cfg) (-1), k)))"

section \<open>Backpropagation\<close>

text \<open>
  \<open>cbackpropagate\<close>.  The search path is a vector of node pointers; the loop runs from
  \<open>i = path_len - 1\<close> down to \<open>0\<close> (here the counter is \<open>i + 1\<close>).  \<open>upd\<close> is
  \<open>min_max_stats.update\<close>.  The two loops of the source, for \<open>to_play == -1\<close> and for
  self-play, are kept apart; the \<open>assert\<close> on \<open>to_play\<close> fails with \<open>None\<close>.
\<close>

definition parent_info :: "heap \<Rightarrow> addr list \<Rightarrow> nat \<Rightarrow> (real \<times> int) option" where
  "parent_info h search_path i =
     (if i \<ge> 1
      then (case deref h (search_path ! (i - 1)) of
              None \<Rightarrow> None
            | Some parent \<Rightarrow> Some (value_prefix parent, is_reset parent))
      else Some (0, 0))"

fun backpropagate_bot ::
  "(real \<Rightarrow> 's \<Rightarrow> 's) \<Rightarrow> addr list \<Rightarrow> real \<Rightarrow> nat \<Rightarrow> real \<Rightarrow> heap \<times> 's \<Rightarrow> (heap \<times> 's) option" where
  "backpropagate_bot upd search_path discount_factor 0 bootstrap_value (h, st) = Some (h, st)"
| "backpropagate_bot upd search_path discount_factor (Suc i) bootstrap_value (h, st) =
     (if length search_path \<le> i then None
      else case deref h (search_path ! i) of
        None \<Rightarrow> None
      | Some node0 \<Rightarrow>
         (case incr_visit_count (node0\<lparr> value_sum := value_sum node0 + bootstrap_value \<rparr>) of
            None \<Rightarrow> None
          | Some node \<Rightarrow>
             (let h1 = h[search_path ! i := node]
              in case parent_info h1 search_path i of
                   None \<Rightarrow> None
                 | Some (parent_value_prefix', is_reset') \<Rightarrow>
                     let true_reward0 = value_prefix node - parent_value_prefix';
                         st1 = upd (true_reward0 + discount_factor * value_of node) st;
                         true_reward = (if is_reset' = 1 then value_prefix node
                                        else true_reward0)
                     in backpropagate_bot upd search_path discount_factor i
                          (true_reward + discount_factor * bootstrap_value) (h1, st1))))"

fun backpropagate_self ::
  "(real \<Rightarrow> 's \<Rightarrow> 's) \<Rightarrow> addr list \<Rightarrow> int \<Rightarrow> real \<Rightarrow> nat \<Rightarrow> real \<Rightarrow> heap \<times> 's \<Rightarrow>
   (heap \<times> 's) option" where
  "backpropagate_self upd search_path to_play' discount_factor 0 bootstrap_value (h, st) =
     Some (h, st)"
| "backpropagate_self upd search_path to_play' discount_factor (Suc i) bootstrap_value (h, st) =
     (if length search_path \<le> i then None
      else case deref h (search_path ! i) of
        None \<Rightarrow> None
      | Some node0 \<Rightarrow>
         (case incr_visit_count
                 (node0\<lparr> value_sum := (if to_play node0 = to_play'
                                          then value_sum node0 + bootstrap_value
                                          else value_sum node0 + - bootstrap_value) \<rparr>) of
            None \<Rightarrow> None
          | Some node \<Rightarrow>
             (let h1 = h[search_path ! i := node]
              in case parent_info h1 search_path i of
                   None \<Rightarrow> None
                 | Some (parent_value_prefix', is_reset') \<Rightarrow>
                     let true_reward0 = value_prefix node - parent_value_prefix';
                         st1 = upd (true_reward0 + discount_factor * value_of node) st;
                         true_reward = (if is_reset' = 1 then value_prefix node
                                        else true_reward0)
                     in backpropagate_self upd search_path to_play' discount_factor i
                          (if to_play node = to_play'
                           then - true_reward + discount_factor * bootstrap_value
                           else true_reward + discount_factor * bootstrap_value)
                          (h1, st1))))"

definition cbackpropagate ::
  "(real \<Rightarrow> 's \<Rightarrow> 's) \<Rightarrow> addr list \<Rightarrow> 's \<Rightarrow> int \<Rightarrow> real \<Rightarrow> real \<Rightarrow> heap \<Rightarrow> (heap \<times> 's) option" where
  "cbackpropagate upd search_path min_max_stats to_play' value' discount_factor h =
     (if \<not> (to_play' = -1 \<or> to_play' = 1 \<or> to_play' = 2) then None
      else if to_play' = -1
      then backpropagate_bot upd search_path discount_factor (length search_path) value'
             (h, min_max_stats)
      else backpropagate_self upd search_path to_play' discount_factor (length search_path)
             value' (h, min_max_stats))"

section \<open>Batched traversal and backpropagation\<close>














section \<open>Notions used to state the properties\<close>

text \<open>
  The node that \<open>compute_mean_q\<close> reads for head \<open>i\<close> and legal action \<open>a\<close>; the
  children it counts as visited, over all heads and legal actions in the order of the
  loops; the value \<open>qsa\<close> of a child; the arithmetic mean.
\<close>

definition child_lookup :: "config \<Rightarrow> heap \<Rightarrow> CNode \<Rightarrow> nat \<Rightarrow> int \<Rightarrow> CNode option" where
  "child_lookup cfg h node i a =
     (case get_child node (word_of_int (a + int i * int (ACTIONS_PER_PLAYER cfg))) of
        None \<Rightarrow> None
      | Some c \<Rightarrow> deref h c)"

definition visited_children :: "config \<Rightarrow> heap \<Rightarrow> CNode \<Rightarrow> CNode list" where
  "visited_children cfg h node =
     filter (\<lambda>child. visit_count child > 0)
       (concat (map (\<lambda>i. map (\<lambda>a. the (child_lookup cfg h node i a)) (legal_actions node))
                    [0..<NUM_ACTION_HEADS cfg]))"

definition qsa_of :: "CNode \<Rightarrow> real \<Rightarrow> CNode \<Rightarrow> real" where
  "qsa_of node discount_factor child =
     (if is_reset node = 1 then value_prefix child else value_prefix child - value_prefix node)
       + discount_factor * value_of child"

definition mean_of :: "real list \<Rightarrow> real" where
  "mean_of xs = sum_list xs / real (length xs)"

text \<open>
  The node that \<open>cselect_child\<close> scores for the legal action \<open>a\<close>; a node all of whose
  legal children exist and can be scored without \<open>int\<close> overflow; the list of the legal
  actions with their scores, in the order of \<open>legal_actions\<close>; the largest score, taken
  from a floor upwards with the comparison of the loop, which no NaN passes; and the
  candidates: the first child that attains the largest score, and every later child whose
  score is at least the single-precision difference of the largest score and
  \<open>epsilon\<close>.
\<close>

definition legal_child :: "heap \<Rightarrow> CNode \<Rightarrow> int \<Rightarrow> CNode option" where
  "legal_child h node a =
     (case get_child node (word_of_int a) of None \<Rightarrow> None | Some c \<Rightarrow> deref h c)"

definition scorable :: "heap \<Rightarrow> CNode \<Rightarrow> bool" where
  "scorable h node \<longleftrightarrow>
     INT_MIN \<le> visit_count node - 1 \<and>
     list_all (\<lambda>a. case legal_child h node a of
                       None \<Rightarrow> False
                     | Some child \<Rightarrow> visit_count child + 1 \<le> INT_MAX)
              (legal_actions node)"

definition legal_scores ::
  "(real \<Rightarrow> real) \<Rightarrow> heap \<Rightarrow> CNode \<Rightarrow> int \<Rightarrow> real \<Rightarrow> real \<Rightarrow> real \<Rightarrow> int \<Rightarrow> (int \<times> float) list" where
  "legal_scores normalise h root_node pb_c_base pb_c_init discount_factor mean_q players =
     map (\<lambda>a. (a, child_score normalise root_node (the (legal_child h root_node a))
                      pb_c_base pb_c_init discount_factor mean_q players))
         (legal_actions root_node)"

definition best_score :: "float \<Rightarrow> (int \<times> float) list \<Rightarrow> float" where
  "best_score floor_score xs = fold (\<lambda>(a, s) m. if flt m s then s else m) xs floor_score"

definition tie_candidates :: "float \<Rightarrow> (int \<times> float) list \<Rightarrow> int list" where
  "tie_candidates floor_score xs =
     (case dropWhile (\<lambda>(a, s). s \<noteq> best_score floor_score xs) xs of
        [] \<Rightarrow> []
      | (a, s) # later \<Rightarrow>
          a # map fst (filter (\<lambda>(b, t). fge t (fsub (best_score floor_score xs) epsilon))
                         later))"

text \<open>
  The test that puts a child on the empty list of \<open>cselect_child\<close>, whose running maximum
  is still \<open>FLOAT_MIN\<close>.
\<close>

definition enters :: "float \<Rightarrow> float \<Rightarrow> bool" where
  "enters floor_score s \<longleftrightarrow> flt floor_score s \<or> fge s (fsub floor_score epsilon)"

text \<open>The loop of \<open>cselect_child\<close> on a list of scored actions, without the lookups.\<close>

fun running_candidates :: "(int \<times> float) list \<Rightarrow> float \<times> int list \<Rightarrow> float \<times> int list" where
  "running_candidates [] acc = acc"
| "running_candidates ((a, s) # xs) (max_score, max_index_lst) =
     (if flt max_score s then running_candidates xs (s, [a])
      else if fge s (fsub max_score epsilon)
      then running_candidates xs (max_score, max_index_lst @ [a])
      else running_candidates xs (max_score, max_index_lst))"

text \<open>
  The invariant of a node: the visit count is not negative, and a node that has not been
  visited has \<open>value_sum = 0\<close> and \<open>value() = 0\<close>.
\<close>

definition node_inv :: "CNode \<Rightarrow> bool" where
  "node_inv n \<longleftrightarrow>
     0 \<le> visit_count n \<and> (visit_count n = 0 \<longrightarrow> value_sum n = 0 \<and> value_of n = 0)"

definition heap_inv :: "heap \<Rightarrow> bool" where
  "heap_inv h \<longleftrightarrow> (\<forall>n\<in>set h. node_inv n)"












section \<open>Example configurations and stores\<close>

text \<open>
  The values of the constants are not in the sources; the examples use one head with two
  actions, and two heads with four actions each.
\<close>

definition cfg_1x2 :: config where
  "cfg_1x2 = \<lparr> NUM_ACTION_HEADS = 1, ACTIONS_PER_PLAYER = 2, TOTAL_ACTIONS = 2,
               FLOAT_MIN = - 1000000 \<rparr>"

definition cfg_2x4 :: config where
  "cfg_2x4 = \<lparr> NUM_ACTION_HEADS = 2, ACTIONS_PER_PLAYER = 4, TOTAL_ACTIONS = 8,
               FLOAT_MIN = - 1000000 \<rparr>"

text \<open>
  The store after \<open>prepare\<close> on one fresh root with no legal actions given, logits
  \<open>[0, 0]\<close>, noise weight 0 and \<open>to_play = -1\<close>: the root at address 0, its two
  children at the addresses 1 and 2 with prior \<open>1/2\<close>.
\<close>

definition root_S1 :: CNode where
  "root_S1 = (new_CNode 0 [])\<lparr> legal_actions := [0, 1], visit_count := 1, to_play := -1,
                current_latent_state_index := 0, batch_index := 0,
                children := [(0, 1), (1, 2)] \<rparr>"

definition heap_S1 :: heap where
  "heap_S1 = [root_S1, new_CNode (1 / 2) [], new_CNode (1 / 2) []]"

text \<open>The same tree after the first child has been visited once with value 1.\<close>

definition heap_S1_visited :: heap where
  "heap_S1_visited =
     [root_S1\<lparr> visit_count := 2, value_sum := 99 / 100 \<rparr>,
      (new_CNode (1 / 2) [])\<lparr> visit_count := 1, value_sum := 1 \<rparr>,
      new_CNode (1 / 2) []]"

text \<open>
  Statistics that have seen no value (the maximum below the minimum, so \<open>normalize\<close>
  leaves a value unchanged), and two sequences of \<open>rand()\<close> results.
\<close>

definition stats_unset :: CMinMaxStats where
  "stats_unset = \<lparr> maximum = - 1000000, minimum = 1000000 \<rparr>"

definition rand_zero :: "nat \<Rightarrow> nat" where
  "rand_zero k = 0"

definition rand_count :: "nat \<Rightarrow> nat" where
  "rand_count k = k"

text \<open>
  The root of \<open>heap_S1\<close> after two simulations, with priors 0 (root noise of weight 1):
  both children visited once, with values \<open>0.5\<close> and \<open>0.5 + 2^-21\<close>.
\<close>

definition heap_tie :: heap where
  "heap_tie =
     [root_S1\<lparr> visit_count := 3 \<rparr>,
      (new_CNode 0 [])\<lparr> visit_count := 1, value_sum := 1 / 2 \<rparr>,
      (new_CNode 0 [])\<lparr> visit_count := 1, value_sum := 1048577 / 2097152 \<rparr>]"

text \<open>
  The store that \<open>expand\<close> builds from one fresh root and the logits \<open>[0, 0]\<close>: the
  store of \<open>heap_S1\<close> before \<open>prepare\<close> counts the root's first visit.
\<close>

definition heap_expanded :: heap where
  "heap_expanded = [root_S1\<lparr> visit_count := 0 \<rparr>, new_CNode (1 / 2) [], new_CNode (1 / 2) []]"

text \<open>
  A path of three nodes at the addresses 0, 1 and 2.  The middle node has
  \<open>is_reset = 1\<close> and \<open>value_prefix = 5\<close>; the leaf has just been expanded with
  \<open>value_prefix = 3\<close>.
\<close>

definition heap_reset :: heap where
  "heap_reset =
     [(new_CNode 0 [])\<lparr> legal_actions := [0, 1], visit_count := 2, value_sum := 1, to_play := 1,
         current_latent_state_index := 0, batch_index := 0, children := [(0, 1), (1, 4)] \<rparr>,
      (new_CNode (1 / 2) [])\<lparr> legal_actions := [0, 1], visit_count := 1, value_sum := 2,
         to_play := 2, value_prefix := 5, is_reset := 1,
         current_latent_state_index := 1, batch_index := 0, children := [(0, 2), (1, 3)] \<rparr>,
      (new_CNode (1 / 2) [])\<lparr> legal_actions := [0, 1], to_play := 1, value_prefix := 3,
         current_latent_state_index := 2, batch_index := 0, children := [(0, 5), (1, 6)] \<rparr>,
      new_CNode (1 / 2) [], new_CNode (1 / 2) [], new_CNode (1 / 2) [], new_CNode (1 / 2) []]"

text \<open>
  The stores that \<open>expand\<close> builds from a fresh root with the single legal action 1 and
  two logits, and, with two heads of four actions, from a fresh root with four logits.
\<close>

definition heap_sparse :: heap where
  "heap_sparse =
     [(new_CNode 0 [1])\<lparr> to_play := -1, current_latent_state_index := 0, batch_index := 0,
         children := [(1, 1)] \<rparr>,
      new_CNode 1 []]"

definition heap_two_heads :: heap where
  "heap_two_heads =
     [(new_CNode 0 [0, 1, 2, 3])\<lparr> to_play := -1, current_latent_state_index := 0,
         batch_index := 0, children := [(0, 1), (1, 2), (2, 3), (3, 4)] \<rparr>,
      new_CNode (1 / 4) [], new_CNode (1 / 4) [], new_CNode (1 / 4) [], new_CNode (1 / 4) []]"

text \<open>
  Two fresh roots prepared together (logits \<open>[0, 0]\<close> each, noise weight 0,
  \<open>to_play = -1\<close>): the roots at the addresses 0 and 1, their children at 2, 3 and at
  4, 5.  \<open>roots_second\<close> is the batch that holds the second root alone.
\<close>

definition roots_two :: CRoots where
  "roots_two = \<lparr> root_num = 2, roots = [0, 1], legal_actions_list = [[], []] \<rparr>"







section \<open>Properties of the action encoding\<close>

lemma cfg_ok_1x2: "cfg_ok cfg_1x2"
  by (simp add: cfg_ok_def cfg_1x2_def)

lemma cfg_ok_2x4: "cfg_ok cfg_2x4"
  by (simp add: cfg_ok_def cfg_2x4_def)

lemma unat_of_nat64: "n < 2 ^ 64 \<Longrightarrow> unat (of_nat n :: 64 word) = n"
  by (simp add: unat_of_nat)

lemma encode_loop_neg:
  "\<forall>a\<in>set as. a < 0 \<Longrightarrow> encode_loop cfg as i enc = enc"
  by (induction as arbitrary: i enc) auto

lemma encode_loop_sum:
  "i + length as = NUM_ACTION_HEADS cfg \<Longrightarrow>
   \<forall>a\<in>set as. 0 \<le> a \<and> a < int (ACTIONS_PER_PLAYER cfg) \<Longrightarrow>
   encode_loop cfg as i enc =
     enc + of_nat (\<Sum>j<length as. nat (as ! j) + (i + j) * ACTIONS_PER_PLAYER cfg)"
proof (induction as arbitrary: i enc)
  case Nil
  then show ?case by simp
next
  case (Cons a as)
  let ?A = "ACTIONS_PER_PLAYER cfg"
  have i: "i < NUM_ACTION_HEADS cfg" using Cons.prems(1) by simp
  have a: "0 \<le> a" "a < int ?A" using Cons.prems(2) by simp_all
  have IH: "encode_loop cfg as (i + 1) e =
     e + of_nat (\<Sum>j<length as. nat (as ! j) + (i + 1 + j) * ?A)" for e
    using Cons.IH [of "i + 1" e] Cons.prems by simp
  have wa: "(word_of_int a :: 64 word) = of_nat (nat a)" using a by simp
  have step: "encode_loop cfg (a # as) i enc =
      encode_loop cfg as (i + 1) (enc + (of_nat (nat a) + of_nat i * of_nat ?A))"
    using i a wa by simp
  have split: "(\<Sum>j<length (a # as). nat ((a # as) ! j) + (i + j) * ?A) =
      (nat a + i * ?A) + (\<Sum>j<length as. nat (as ! j) + (i + 1 + j) * ?A)"
    by (simp add: sum.lessThan_Suc_shift del: sum.lessThan_Suc)
  show ?case
    unfolding step IH split by (simp only: of_nat_add of_nat_mult add.assoc)
qed

lemma head_sum_bound:
  assumes ok: "cfg_ok cfg"
    and len: "length actions = NUM_ACTION_HEADS cfg"
    and rng: "\<forall>a\<in>set actions. 0 \<le> a \<and> a < int (ACTIONS_PER_PLAYER cfg)"
  shows "(\<Sum>j<length actions. nat (actions ! j) + j * ACTIONS_PER_PLAYER cfg) < 2 ^ 64"
proof -
  let ?A = "ACTIONS_PER_PLAYER cfg" and ?H = "NUM_ACTION_HEADS cfg" and ?T = "TOTAL_ACTIONS cfg"
  have T: "?T = ?A * ?H" "?T < 2 ^ 31" "0 < ?A" "0 < ?H" using ok by (simp_all add: cfg_ok_def)
  have H: "?H \<le> ?T" using T by simp
  have tm: "nat (actions ! j) + j * ?A \<le> ?T" if "j < length actions" for j
  proof -
    have "actions ! j \<in> set actions" using that by simp
    then have "nat (actions ! j) < ?A" using rng by auto
    moreover have "Suc j \<le> ?H" using that len by simp
    then have "Suc j * ?A \<le> ?H * ?A" by (rule mult_le_mono1)
    ultimately show ?thesis using T by (simp add: mult.commute)
  qed
  have "(\<Sum>j<length actions. nat (actions ! j) + j * ?A) \<le> (\<Sum>j<length actions. ?T)"
    by (rule sum_mono) (use tm in simp)
  also have "\<dots> = ?H * ?T" using len by simp
  also have "\<dots> \<le> ?T * ?T" using H by (rule mult_le_mono1)
  also have "\<dots> < 2 ^ 31 * 2 ^ 31" using T(2) by (intro mult_strict_mono) simp_all
  also have "\<dots> < (2::nat) ^ 64" by simp
  finally show ?thesis .
qed

text \<open>
  C6.  For an action vector of length \<open>NUM_ACTION_HEADS\<close> whose entries all lie in
  \<open>0..<ACTIONS_PER_PLAYER\<close>, \<open>encode_action\<close> returns the sum over the heads \<open>i\<close> of
  \<open>a\<^sub>i + i * ACTIONS_PER_PLAYER\<close> when that sum is at most \<open>TOTAL_ACTIONS - 1\<close>, and
  \<open>TOTAL_ACTIONS - 1\<close> otherwise.  The 64-bit accumulator does not wrap around.
\<close>

theorem encode_action_sum_clamped:
  assumes ok: "cfg_ok cfg"
    and len: "length actions = NUM_ACTION_HEADS cfg"
    and rng: "\<forall>a\<in>set actions. 0 \<le> a \<and> a < int (ACTIONS_PER_PLAYER cfg)"
  shows "int (unat (encode_action cfg actions)) =
     (if (\<Sum>i<NUM_ACTION_HEADS cfg. actions ! i + int i * int (ACTIONS_PER_PLAYER cfg))
           \<le> int (TOTAL_ACTIONS cfg) - 1
      then (\<Sum>i<NUM_ACTION_HEADS cfg. actions ! i + int i * int (ACTIONS_PER_PLAYER cfg))
      else int (TOTAL_ACTIONS cfg) - 1)"
proof -
  let ?A = "ACTIONS_PER_PLAYER cfg" and ?H = "NUM_ACTION_HEADS cfg" and ?T = "TOTAL_ACTIONS cfg"
  define S where "S = (\<Sum>j<length actions. nat (actions ! j) + j * ?A)"
  have T: "0 < ?T" "?T < 2 ^ 64"
  proof -
    have "?T = ?A * ?H" "?T < 2 ^ 31" "0 < ?A" "0 < ?H" using ok by (simp_all add: cfg_ok_def)
    then show "0 < ?T" by simp
    have "(2::nat) ^ 31 < 2 ^ 64" by simp
    with \<open>?T < 2 ^ 31\<close> show "?T < 2 ^ 64" by linarith
  qed
  have S: "S < 2 ^ 64" unfolding S_def by (rule head_sum_bound [OF ok len rng])
  have loop: "encode_loop cfg actions 0 0 = (of_nat S :: 64 word)"
    using encode_loop_sum [of 0 actions cfg 0] len rng by (simp add: S_def)
  have less: "(of_nat S :: 64 word) < of_nat ?T \<longleftrightarrow> S < ?T"
    using S T by (simp add: word_less_nat_alt unat_of_nat64)
  have clampv: "unat (of_nat ?T - 1 :: 64 word) = ?T - 1"
  proof -
    have "(of_nat ?T - 1 :: 64 word) = of_nat (?T - 1)" using T(1) by simp
    moreover have "?T - 1 < 2 ^ 64" using T(2) by simp
    ultimately show ?thesis by (simp add: unat_of_nat64)
  qed
  have intS: "int S = (\<Sum>i<?H. actions ! i + int i * int ?A)"
  proof -
    have "int S = (\<Sum>j<length actions. int (nat (actions ! j) + j * ?A))"
      unfolding S_def by (rule of_nat_sum)
    also have "\<dots> = (\<Sum>j<length actions. actions ! j + int j * int ?A)"
    proof (rule sum.cong)
      fix j assume "j \<in> {..<length actions}"
      then have "actions ! j \<in> set actions" by simp
      then have "0 \<le> actions ! j" using rng by auto
      then show "int (nat (actions ! j) + j * ?A) = actions ! j + int j * int ?A" by simp
    qed simp
    finally show ?thesis using len by simp
  qed
  show ?thesis
  proof (cases "S < ?T")
    case True
    then have "unat (encode_action cfg actions) = S"
      using S by (simp add: encode_action_def loop less unat_of_nat64)
    moreover have "int S \<le> int ?T - 1" using True by simp
    ultimately show ?thesis using intS by simp
  next
    case False
    then have "unat (encode_action cfg actions) = ?T - 1"
      by (simp add: encode_action_def loop less clampv)
    moreover have "\<not> int S \<le> int ?T - 1" using False by simp
    ultimately show ?thesis using intS T(1) by (simp add: of_nat_diff)
  qed
qed

text \<open>
  With two heads of four actions, \<open>(0, 1)\<close> is encoded as \<open>0 + (1 + 4) = 5\<close>, and
  \<open>(1, 3)\<close>, whose sum \<open>1 + (3 + 4) = 8\<close> exceeds 7, is clamped to 7.
\<close>

theorem encode_action_sum_clamped_witness:
  "int (unat (encode_action cfg_2x4 [0, 1])) = 5 \<and> int (unat (encode_action cfg_2x4 [1, 3])) = 7"
proof -
  have r: "\<forall>a\<in>set [0, 1 :: int]. 0 \<le> a \<and> a < int (ACTIONS_PER_PLAYER cfg_2x4)"
    by (simp add: cfg_2x4_def)
  have r': "\<forall>a\<in>set [1, 3 :: int]. 0 \<le> a \<and> a < int (ACTIONS_PER_PLAYER cfg_2x4)"
    by (simp add: cfg_2x4_def)
  have l: "length [0, 1 :: int] = NUM_ACTION_HEADS cfg_2x4" by (simp add: cfg_2x4_def)
  have l': "length [1, 3 :: int] = NUM_ACTION_HEADS cfg_2x4" by (simp add: cfg_2x4_def)
  have two: "{..<2::nat} = {0, 1}" by auto
  show ?thesis
    using encode_action_sum_clamped [OF cfg_ok_2x4 l r]
      encode_action_sum_clamped [OF cfg_ok_2x4 l' r']
    by (simp add: cfg_2x4_def two)
qed

text \<open>
  C10.  For an action vector of length \<open>NUM_ACTION_HEADS\<close> whose first entry \<open>a\<close> lies in
  \<open>0..<ACTIONS_PER_PLAYER\<close> and whose other entries are negative (the \<open>-1\<close> sentinels
  that \<open>cselect_child\<close> leaves), \<open>encode_action\<close> returns \<open>a\<close>, and the vector overload of
  \<open>get_child\<close> returns what the scalar overload returns for \<open>a\<close>.
\<close>

theorem encode_action_first_slot:
  assumes ok: "cfg_ok cfg"
    and len: "length actions = NUM_ACTION_HEADS cfg"
    and first: "0 \<le> hd actions" "hd actions < int (ACTIONS_PER_PLAYER cfg)"
    and rest: "\<forall>x\<in>set (tl actions). x < 0"
  shows "encode_action cfg actions = word_of_int (hd actions) \<and>
         get_child_vec cfg n actions = get_child n (word_of_int (hd actions))"
proof -
  let ?A = "ACTIONS_PER_PLAYER cfg" and ?H = "NUM_ACTION_HEADS cfg" and ?T = "TOTAL_ACTIONS cfg"
  have T: "?T = ?A * ?H" "?T < 2 ^ 31" "0 < ?A" "0 < ?H" using ok by (simp_all add: cfg_ok_def)
  obtain a as where actions: "actions = a # as" using len T(4) by (cases actions) auto
  have a: "0 \<le> a" "a < int ?A" using first actions by simp_all
  have as: "\<forall>x\<in>set as. x < 0" using rest actions by simp
  have loop: "encode_loop cfg actions 0 0 = word_of_int a"
    using a T(4) by (simp add: actions encode_loop_neg [OF as])
  have wa: "(word_of_int a :: 64 word) = of_nat (nat a)" using a by simp
  have "nat a < ?T"
  proof -
    have "nat a < ?A" using a by simp
    also have "?A \<le> ?T" using T by simp
    finally show ?thesis .
  qed
  moreover have "(2::nat) ^ 31 < 2 ^ 64" by simp
  ultimately have "nat a < 2 ^ 64" "?T < 2 ^ 64" using T(2) by linarith+
  then have "(of_nat (nat a) :: 64 word) < of_nat ?T"
    using \<open>nat a < ?T\<close> by (simp add: word_less_nat_alt unat_of_nat64)
  then have enc: "encode_action cfg actions = word_of_int a"
    by (simp add: encode_action_def loop wa)
  show ?thesis
    using enc len by (simp add: actions get_child_vec_def get_child_def)
qed

text \<open>
  A node with children under the keys 0 to 3, at the addresses 1 to 4: the vector
  \<open>(3, -1)\<close> and the key 3 both lead to the child at address 4.
\<close>

theorem encode_action_first_slot_witness:
  "encode_action cfg_2x4 [3, -1] = 3 \<and>
   get_child_vec cfg_2x4 ((new_CNode 0 [])\<lparr> children := [(0, 1), (1, 2), (2, 3), (3, 4)] \<rparr>)
     [3, -1] = Some 4 \<and>
   get_child ((new_CNode 0 [])\<lparr> children := [(0, 1), (1, 2), (2, 3), (3, 4)] \<rparr>) 3 = Some 4"
proof -
  have "length [3, -1 :: int] = NUM_ACTION_HEADS cfg_2x4" by (simp add: cfg_2x4_def)
  moreover have "0 \<le> hd [3, -1 :: int]" "hd [3, -1 :: int] < int (ACTIONS_PER_PLAYER cfg_2x4)"
    by (simp_all add: cfg_2x4_def)
  moreover have "\<forall>x\<in>set (tl [3, -1 :: int]). x < 0" by simp
  ultimately show ?thesis
    using encode_action_first_slot [OF cfg_ok_2x4,
        of "[3, -1]" "(new_CNode 0 [])\<lparr> children := [(0, 1), (1, 2), (2, 3), (3, 4)] \<rparr>"]
    by (simp add: get_child_def new_CNode_def)
qed

section \<open>The example store is the one that \<open>prepare\<close> builds\<close>

lemma new_CRoots_S1:
  "new_CRoots 1 [[]] [] =
     Some (\<lparr> root_num = 1, roots = [0], legal_actions_list = [[]] \<rparr>, [new_CNode 0 []])"
  by (simp add: new_CRoots_def)

lemma expand_S1:
  "expand cfg_1x2 0 (-1) 0 0 0 [0, 0] [new_CNode 0 []] =
     Some [root_S1\<lparr> visit_count := 0 \<rparr>, new_CNode (1 / 2) [], new_CNode (1 / 2) []]"
  by (simp add: expand_def deref_def policy_max_of_def policy_sum_of_def cfg_1x2_def
      new_CNode_def root_S1_def Let_def upt_rec [of 0])

lemma noise_S1:
  "add_exploration_noise 0 [0, 0] 0
     [root_S1\<lparr> visit_count := 0 \<rparr>, new_CNode (1 / 2) [], new_CNode (1 / 2) []] =
   Some [root_S1\<lparr> visit_count := 0 \<rparr>, new_CNode (1 / 2) [], new_CNode (1 / 2) []]"
  by (simp add: add_exploration_noise_def deref_def get_child_def root_S1_def new_CNode_def)

lemma prepare_S1:
  "prepare cfg_1x2 \<lparr> root_num = 1, roots = [0], legal_actions_list = [[]] \<rparr>
      0 [[0, 0]] [0] [[0, 0]] [-1] [new_CNode 0 []] = Some heap_S1"
  apply (simp add: prepare_def expand_S1 noise_S1)
  apply (simp add: deref_def incr_visit_count_def INT_MAX_def heap_S1_def root_S1_def)
  done

section \<open>The mean Q value at a root\<close>

lemma mean_q_actions_total:
  "\<forall>a\<in>set as. child_lookup cfg h node i a \<noteq> None \<Longrightarrow>
   mean_q_actions cfg h node d i as (q, v) =
     Some (q + sum_list (map (qsa_of node d)
              (filter (\<lambda>child. visit_count child > 0)
                 (map (\<lambda>a. the (child_lookup cfg h node i a)) as))),
           v + int (length (filter (\<lambda>child. visit_count child > 0)
                 (map (\<lambda>a. the (child_lookup cfg h node i a)) as))))"
proof (induction as arbitrary: q v)
  case Nil
  then show ?case by simp
next
  case (Cons a as)
  from Cons.prems obtain child where look: "child_lookup cfg h node i a = Some child" by auto
  then obtain c where
    c: "get_child node (word_of_int (a + int i * int (ACTIONS_PER_PLAYER cfg))) = Some c"
    and child: "deref h c = Some child"
    by (auto simp: child_lookup_def split: option.splits)
  have rest: "\<forall>a\<in>set as. child_lookup cfg h node i a \<noteq> None" using Cons.prems by simp
  show ?case
  proof (cases "visit_count child > 0")
    case True
    have "mean_q_actions cfg h node d i (a # as) (q, v) =
          mean_q_actions cfg h node d i as (q + qsa_of node d child, v + 1)"
      using True c child by (simp add: qsa_of_def)
    then show ?thesis using Cons.IH [OF rest] True look by (simp add: add.assoc)
  next
    case False
    have "mean_q_actions cfg h node d i (a # as) (q, v) =
          mean_q_actions cfg h node d i as (q, v)"
      using False c child by simp
    then show ?thesis using Cons.IH [OF rest] False look by simp
  qed
qed

lemma mean_q_heads_total:
  "\<forall>i\<in>set is. \<forall>a\<in>set (legal_actions node). child_lookup cfg h node i a \<noteq> None \<Longrightarrow>
   mean_q_heads cfg h node d is (q, v) =
     Some (q + sum_list (map (qsa_of node d)
              (filter (\<lambda>child. visit_count child > 0)
                 (concat (map (\<lambda>i. map (\<lambda>a. the (child_lookup cfg h node i a))
                                     (legal_actions node)) is)))),
           v + int (length (filter (\<lambda>child. visit_count child > 0)
                 (concat (map (\<lambda>i. map (\<lambda>a. the (child_lookup cfg h node i a))
                                     (legal_actions node)) is)))))"
proof (induction "is" arbitrary: q v)
  case Nil
  then show ?case by simp
next
  case (Cons i "is")
  have a: "\<forall>a\<in>set (legal_actions node). child_lookup cfg h node i a \<noteq> None"
    using Cons.prems by simp
  have rest: "\<forall>i\<in>set is. \<forall>a\<in>set (legal_actions node). child_lookup cfg h node i a \<noteq> None"
    using Cons.prems by simp
  show ?case
    by (simp add: mean_q_actions_total [OF a] Cons.IH [OF rest] add.assoc)
qed

text \<open>
  C1, as stated: with \<open>is_root\<close> set and no visited child, \<open>compute_mean_q\<close> returns 0
  for every \<open>parent_q\<close>.  On the freshly prepared root, whose children are unvisited, it
  returns \<open>parent_q\<close>: 5 for \<open>parent_q = 5\<close>.
\<close>

theorem compute_mean_q_unvisited_root_counterexample:
  "visited_children cfg_1x2 heap_S1 root_S1 = [] \<and>
   compute_mean_q cfg_1x2 heap_S1 0 1 5 (99 / 100) = Some 5"
  by (simp add: compute_mean_q_def visited_children_def child_lookup_def deref_def heap_S1_def
      root_S1_def get_child_def cfg_1x2_def new_CNode_def)

text \<open>
  C1, amended: called with \<open>is_root\<close> set on a node all of whose lookups find a child,
  \<open>compute_mean_q\<close> returns the arithmetic mean of
  \<open>qsa = true_reward + discount_factor * child.value()\<close> over the visited children it
  looks up when there is one, and returns \<open>parent_q\<close> when no child has been visited.
\<close>

theorem compute_mean_q_root:
  assumes node: "deref h p = Some node"
    and exist: "\<forall>i<NUM_ACTION_HEADS cfg. \<forall>a\<in>set (legal_actions node).
                  child_lookup cfg h node i a \<noteq> None"
    and root: "isRoot \<noteq> 0"
  shows "compute_mean_q cfg h p isRoot parent_q discount_factor =
           Some (if visited_children cfg h node = [] then parent_q
                 else mean_of (map (qsa_of node discount_factor)
                                 (visited_children cfg h node)))"
proof -
  let ?vs = "visited_children cfg h node"
  have ex: "\<forall>i\<in>set [0..<NUM_ACTION_HEADS cfg]. \<forall>a\<in>set (legal_actions node).
              child_lookup cfg h node i a \<noteq> None"
    using exist by simp
  have heads: "mean_q_heads cfg h node discount_factor [0..<NUM_ACTION_HEADS cfg] (0, 0)
              = Some (sum_list (map (qsa_of node discount_factor) ?vs), int (length ?vs))"
    using mean_q_heads_total [OF ex, of discount_factor 0 0]
    by (simp add: visited_children_def)
  show ?thesis
  proof (cases "?vs = []")
    case True
    then show ?thesis using node heads by (simp add: compute_mean_q_def)
  next
    case False
    then have "0 < int (length ?vs)" by simp
    then show ?thesis using node heads root False
      by (simp add: compute_mean_q_def mean_of_def)
  qed
qed

text \<open>
  Once the first child has been visited with value 1, the root's mean is the single
  \<open>qsa = 0 + 0.99 * 1\<close>, whatever \<open>parent_q\<close> is.
\<close>

theorem compute_mean_q_root_witness:
  "compute_mean_q cfg_1x2 heap_S1_visited 0 1 5 (99 / 100) = Some (99 / 100) \<and>
   visited_children cfg_1x2 heap_S1_visited (heap_S1_visited ! 0) = [heap_S1_visited ! 1]"
proof -
  have d: "deref heap_S1_visited 0 = Some (heap_S1_visited ! 0)"
    by (simp add: deref_def heap_S1_visited_def)
  have e: "\<forall>i<NUM_ACTION_HEADS cfg_1x2. \<forall>a\<in>set (legal_actions (heap_S1_visited ! 0)).
             child_lookup cfg_1x2 heap_S1_visited (heap_S1_visited ! 0) i a \<noteq> None"
    by (simp add: child_lookup_def deref_def heap_S1_visited_def root_S1_def get_child_def
        cfg_1x2_def new_CNode_def)
  have r: "(1::int) \<noteq> 0" by simp
  have v: "visited_children cfg_1x2 heap_S1_visited (heap_S1_visited ! 0) = [heap_S1_visited ! 1]"
    by (simp add: visited_children_def child_lookup_def deref_def heap_S1_visited_def
      root_S1_def get_child_def cfg_1x2_def new_CNode_def)
  have q: "mean_of (map (qsa_of (heap_S1_visited ! 0) (99 / 100)) [heap_S1_visited ! 1]) = 99 / 100"
    by (simp add: mean_of_def qsa_of_def value_of_def heap_S1_visited_def root_S1_def
        new_CNode_def)
  from compute_mean_q_root [OF d e r, of 5 "99 / 100"] v q show ?thesis by simp
qed

section \<open>Backpropagation and the reset flag\<close>

text \<open>
  C4.  The values submitted to \<open>MinMaxStats.update\<close>, in the order of submission, when
  \<open>cbackpropagate\<close> runs along the path \<open>0, 1, 2\<close> of \<open>heap_reset\<close> with value 0 and
  discount 1, in single-player mode and in two-player mode.  The leaf's parent has
  \<open>is_reset = 1\<close>, so C4 expects \<open>value_prefix + discount * value() = 3 + 0\<close> for the
  leaf; the code submits \<open>3 - 5 + 0 = -2\<close>, since it calls \<open>update\<close> before it
  overrides \<open>true_reward\<close>.
\<close>

theorem cbackpropagate_reset_submits_unreset_reward:
  "is_reset (heap_reset ! 1) = 1 \<and> value_prefix (heap_reset ! 2) = 3 \<and>
   map_option snd (cbackpropagate (\<lambda>q submitted. submitted @ [q]) [0, 1, 2] [] (-1) 0 1
      heap_reset) = Some [-2, 15 / 2, 3] \<and>
   map_option snd (cbackpropagate (\<lambda>q submitted. submitted @ [q]) [0, 1, 2] [] 1 0 1
      heap_reset) = Some [-2, 15 / 2, 1]"
  by (simp add: cbackpropagate_def heap_reset_def numeral_3_eq_3 deref_def
      incr_visit_count_def INT_MAX_def parent_info_def value_of_def new_CNode_def)

section \<open>Child lookups after expansion\<close>

lemma expand_sparse:
  "expand cfg_1x2 0 (-1) 0 0 0 [0, 0] [new_CNode 0 [1]] = Some heap_sparse"
  by (simp add: expand_def deref_def policy_max_of_def policy_sum_of_def cfg_1x2_def
      new_CNode_def Let_def heap_sparse_def)

lemma expand_two_heads:
  "expand cfg_2x4 0 (-1) 0 0 0 [0, 0, 0, 0] [new_CNode 0 []] = Some heap_two_heads"
  by (simp add: expand_def deref_def policy_max_of_def policy_sum_of_def cfg_2x4_def
      new_CNode_def Let_def heap_two_heads_def
      upt_rec [of 0] upt_rec [of 1] upt_rec [of 2] upt_rec [of 3])

lemma heads_2x4: "[0..<NUM_ACTION_HEADS cfg_2x4] = [0, Suc 0]"
  by (simp add: cfg_2x4_def numeral_2_eq_2)

lemma mean_q_sparse: "compute_mean_q cfg_1x2 heap_sparse 0 1 0 1 = None"
  by (simp add: get_child_def compute_mean_q_def deref_def cfg_1x2_def new_CNode_def
      heap_sparse_def)

lemma mean_q_two_heads: "compute_mean_q cfg_2x4 heap_two_heads 0 1 0 1 = None"
  apply (simp add: compute_mean_q_def deref_def heads_2x4 heap_two_heads_def)
  apply (simp add: get_child_def deref_def cfg_2x4_def new_CNode_def)
  done

text \<open>
  C9.  A root with the single legal action 1 and two logits: \<open>expand\<close> stores its child
  under key 1 in a table of size 1, \<open>get_child(1)\<close> finds \<open>1 >= children.size()\<close> and
  returns null, and \<open>compute_mean_q\<close> dereferences it.  With two heads of four actions,
  the lookup for head 1 and action 0 asks for key 4, which \<open>expand\<close> never creates.
\<close>

theorem compute_mean_q_null_child:
  "expand cfg_1x2 0 (-1) 0 0 0 [0, 0] [new_CNode 0 [1]] = Some heap_sparse \<and>
   map_of (children (heap_sparse ! 0)) 1 = Some 1 \<and>
   get_child (heap_sparse ! 0) 1 = None \<and>
   compute_mean_q cfg_1x2 heap_sparse 0 1 0 1 = None \<and>
   expand cfg_2x4 0 (-1) 0 0 0 [0, 0, 0, 0] [new_CNode 0 []] = Some heap_two_heads \<and>
   get_child (heap_two_heads ! 0) (word_of_int (0 + 1 * 4)) = None \<and>
   compute_mean_q cfg_2x4 heap_two_heads 0 1 0 1 = None"
  by (simp add: expand_sparse expand_two_heads mean_q_sparse mean_q_two_heads)
     (simp add: get_child_def heap_sparse_def heap_two_heads_def new_CNode_def)

section \<open>Properties of the single-precision arithmetic\<close>

lemma round_half_even_int: "round_half_even (real_of_int n) = n"
  by (simp add: round_half_even_def)

lemma round_half_even_err: "\<bar>real_of_int (round_half_even t) - t\<bar> \<le> 1 / 2"
  unfolding round_half_even_def Let_def by (auto; linarith)

lemma pow2_pos: "0 < pow2 k"
  by (simp add: pow2_def)

lemma pow2_add: "pow2 (a + b) = pow2 a * pow2 b"
  by (simp add: pow2_def powr_add)

lemma pow2_nat: "pow2 (int n) = 2 ^ n"
  by (simp add: pow2_def powr_realpow)

lemma pow2_neg: "pow2 (- int n) = 1 / 2 ^ n"
  by (simp add: pow2_def powr_minus powr_realpow divide_inverse)

lemma pow2_1 [simp]: "pow2 1 = 2"
  by (simp add: pow2_def)

lemma pow2_minus_1 [simp]: "pow2 (- 1) = 1 / 2"
  using pow2_neg [of 1] by simp

lemma pow2_numeral [simp]: "pow2 (numeral n) = 2 ^ numeral n"
  using pow2_nat [of "numeral n"] by simp

lemma pow2_neg_numeral [simp]: "pow2 (- numeral n) = 1 / 2 ^ numeral n"
  using pow2_neg [of "numeral n"] by simp

lemma pow2_0 [simp]: "pow2 0 = 1"
  by (simp add: pow2_def)

lemma pow2_mono: "a \<le> b \<Longrightarrow> pow2 a \<le> pow2 b"
  by (simp add: pow2_def)

lemma pow2_less_iff: "pow2 a < pow2 b \<longleftrightarrow> a < b"
  by (simp add: pow2_def)

lemma floor_log2:
  assumes "x \<noteq> 0"
  shows "pow2 \<lfloor>log 2 \<bar>x\<bar>\<rfloor> \<le> \<bar>x\<bar>" "\<bar>x\<bar> < pow2 (\<lfloor>log 2 \<bar>x\<bar>\<rfloor> + 1)"
proof -
  have "0 < \<bar>x\<bar>" using assms by simp
  from floor_log_eq_powr_iff [OF this, of 2 "\<lfloor>log 2 \<bar>x\<bar>\<rfloor>"]
  show "pow2 \<lfloor>log 2 \<bar>x\<bar>\<rfloor> \<le> \<bar>x\<bar>" "\<bar>x\<bar> < pow2 (\<lfloor>log 2 \<bar>x\<bar>\<rfloor> + 1)"
    by (simp_all add: pow2_def)
qed

lemma floor_log2_eq:
  assumes "pow2 e \<le> \<bar>x\<bar>" "\<bar>x\<bar> < pow2 (e + 1)"
  shows "\<lfloor>log 2 \<bar>x\<bar>\<rfloor> = e"
proof -
  have "0 < \<bar>x\<bar>" using assms(1) pow2_pos [of e] by linarith
  from floor_log_eq_powr_iff [OF this, of 2 e] assms show ?thesis
    by (simp add: pow2_def)
qed

text \<open>Evaluation in a known binade.\<close>

lemma f32_round_normal:
  assumes "pow2 e \<le> \<bar>x\<bar>" "\<bar>x\<bar> < pow2 (e + 1)" "- 126 \<le> e"
  shows "f32_round x =
     (let y = real_of_int (round_half_even (x / pow2 (e - 23))) * pow2 (e - 23)
      in if FLT_MAX < \<bar>y\<bar> then (if 0 < x then PInf else NInf) else Fin y)"
proof -
  have "x \<noteq> 0" using assms(1) pow2_pos [of e] by auto
  then show ?thesis using floor_log2_eq [OF assms(1,2)] assms(3)
    by (simp add: f32_round_def Let_def max_def)
qed

lemma f32_round_err:
  assumes "\<bar>x\<bar> \<le> 2 ^ 126"
  shows "\<exists>y. f32_round x = Fin y \<and> \<bar>y - x\<bar> \<le> \<bar>x\<bar> / 2 ^ 24 + 1 / 2 ^ 150"
proof (cases "x = 0")
  case True
  then show ?thesis by (simp add: f32_round_def)
next
  case False
  define f where "f = \<lfloor>log 2 \<bar>x\<bar>\<rfloor>"
  define e where "e = max (- 126) f"
  define u where "u = pow2 (e - 23)"
  define y where "y = real_of_int (round_half_even (x / u)) * u"
  have u_pos: "0 < u" by (simp add: u_def pow2_pos)
  have "\<bar>y - x\<bar> = \<bar>real_of_int (round_half_even (x / u)) - x / u\<bar> * u"
  proof -
    have "y - x = (real_of_int (round_half_even (x / u)) - x / u) * u"
      using u_pos by (simp add: y_def algebra_simps)
    then show ?thesis using u_pos by (simp add: abs_mult)
  qed
  also have "\<dots> \<le> 1 / 2 * u"
    using round_half_even_err [of "x / u"] u_pos by (intro mult_right_mono) simp_all
  finally have err: "\<bar>y - x\<bar> \<le> u / 2" by simp
  have fl: "pow2 f \<le> \<bar>x\<bar>" unfolding f_def by (rule floor_log2 [OF False])
  have u_le: "u / 2 \<le> \<bar>x\<bar> / 2 ^ 24 + 1 / 2 ^ 150"
  proof (cases "- 126 \<le> f")
    case True
    then have "e = f" by (simp add: e_def)
    then have "u = pow2 f * pow2 (- 23)" unfolding u_def using pow2_add [of f "- 23"] by simp
    then have "u / 2 = pow2 f / 2 ^ 24" by simp
    also have "\<dots> \<le> \<bar>x\<bar> / 2 ^ 24" using fl by (simp add: divide_right_mono)
    finally show ?thesis by simp
  next
    case False
    then have "e = - 126" by (simp add: e_def)
    then have "u = 1 / 2 ^ 149" by (simp add: u_def)
    then have "u / 2 = 1 / 2 ^ 150" by simp
    then show ?thesis by simp
  qed
  have bound: "\<bar>y - x\<bar> \<le> \<bar>x\<bar> / 2 ^ 24 + 1 / 2 ^ 150" using err u_le by linarith
  have "\<bar>y\<bar> \<le> \<bar>x\<bar> + \<bar>y - x\<bar>" by linarith
  also have "\<dots> \<le> 2 ^ 126 + (2 ^ 126 / 2 ^ 24 + 1 / 2 ^ 150)"
    using bound assms by (intro add_mono) (auto intro: order_trans divide_right_mono)
  also have "\<dots> \<le> FLT_MAX" by (simp add: FLT_MAX_def)
  finally have "\<not> FLT_MAX < \<bar>y\<bar>" by simp
  then have "f32_round x = Fin y"
    using False by (simp add: f32_round_def Let_def y_def u_def e_def f_def)
  then show ?thesis using bound by blast
qed

lemma f32_round_exact:
  assumes "\<bar>m\<bar> < 2 ^ 24" "- 149 \<le> k" "k \<le> 104"
  shows "f32_round (real_of_int m * pow2 k) = Fin (real_of_int m * pow2 k)"
proof (cases "m = 0")
  case True
  then show ?thesis by (simp add: f32_round_def)
next
  case False
  define x where "x = real_of_int m * pow2 k"
  have x0: "x \<noteq> 0" using False pow2_pos [of k] by (simp add: x_def)
  define f where "f = \<lfloor>log 2 \<bar>x\<bar>\<rfloor>"
  define e where "e = max (- 126) f"
  have absx: "\<bar>x\<bar> = real_of_int \<bar>m\<bar> * pow2 k"
    using pow2_pos [of k] by (simp add: x_def abs_mult)
  have m24: "real_of_int \<bar>m\<bar> < 2 ^ 24"
  proof -
    have "real_of_int \<bar>m\<bar> < real_of_int (2 ^ 24)" using assms(1) by (simp only: of_int_less_iff)
    then show ?thesis by simp
  qed
  have "pow2 f \<le> \<bar>x\<bar>" unfolding f_def by (rule floor_log2 [OF x0])
  also have "\<dots> < 2 ^ 24 * pow2 k"
    unfolding absx using m24 pow2_pos [of k] by (intro mult_strict_right_mono)
  also have "\<dots> = pow2 (24 + k)" using pow2_add [of 24 k] by simp
  finally have "f < 24 + k" by (simp add: pow2_less_iff)
  then have ek: "e - 23 \<le> k" using assms(2) by (simp add: e_def)
  define j where "j = nat (k - (e - 23))"
  have kj: "k = (e - 23) + int j" using ek by (simp add: j_def)
  have "pow2 k = pow2 (e - 23) * 2 ^ j"
    using pow2_add [of "e - 23" "int j"] by (simp add: kj [symmetric] pow2_nat)
  then have q: "x / pow2 (e - 23) = real_of_int (m * 2 ^ j)"
    using pow2_pos [of "e - 23"] by (simp add: x_def)
  have y: "real_of_int (round_half_even (x / pow2 (e - 23))) * pow2 (e - 23) = x"
    unfolding q round_half_even_int using q pow2_pos [of "e - 23"]
    by (simp add: field_simps)
  have "\<bar>x\<bar> \<le> (2 ^ 24 - 1) * pow2 k"
  proof -
    have "\<bar>m\<bar> \<le> 2 ^ 24 - 1" using assms(1) by simp
    then have "real_of_int \<bar>m\<bar> \<le> real_of_int (2 ^ 24 - 1)" by (simp only: of_int_le_iff)
    then show ?thesis unfolding absx using pow2_pos [of k]
      by (intro mult_right_mono) simp_all
  qed
  also have "\<dots> \<le> (2 ^ 24 - 1) * pow2 104"
    using pow2_mono [OF assms(3)] by (intro mult_left_mono) simp_all
  finally have "\<not> FLT_MAX < \<bar>x\<bar>" by (simp add: FLT_MAX_def)
  then have "f32_round x = Fin x"
    using x0 y by (simp add: f32_round_def Let_def e_def f_def)
  then show ?thesis by (simp add: x_def)
qed

lemma f32_round_int:
  assumes "\<bar>m\<bar> < 2 ^ 24"
  shows "f32_round (real_of_int m) = Fin (real_of_int m)"
  using f32_round_exact [OF assms, of 0] by simp

lemma f32_round_dyadic:
  assumes "\<bar>m\<bar> < 2 ^ 24" "n \<le> 149"
  shows "f32_round (real_of_int m / 2 ^ n) = Fin (real_of_int m / 2 ^ n)"
  using f32_round_exact [OF assms(1), of "- int n"] assms(2) by (simp add: pow2_neg)


lemma f32_round_0 [simp]: "f32_round 0 = Fin 0"
  by (simp add: f32_round_def)

lemma f32_round_finite:
  assumes "\<bar>x\<bar> \<le> B" "B \<le> 2 ^ 125"
  shows "\<exists>y. f32_round x = Fin y \<and> \<bar>y\<bar> \<le> 2 * B + 1"
proof -
  have "\<bar>x\<bar> \<le> 2 ^ 126" using assms by (auto intro: order_trans)
  from f32_round_err [OF this] obtain y where
    y: "f32_round x = Fin y" and e: "\<bar>y - x\<bar> \<le> \<bar>x\<bar> / 2 ^ 24 + 1 / 2 ^ 150" by blast
  have "\<bar>x\<bar> / 2 ^ 24 \<le> \<bar>x\<bar>" by (simp add: field_simps)
  moreover have "(1::real) / 2 ^ 150 \<le> 1" by simp
  ultimately have "\<bar>y\<bar> \<le> 2 * B + 1" using e assms(1) by linarith
  then show ?thesis using y by blast
qed

lemma f32_round_pos:
  assumes "1 / 2 ^ 100 \<le> x" "x \<le> 2 ^ 126"
  shows "\<exists>y. f32_round x = Fin y \<and> x / 2 \<le> y \<and> y \<le> 2 * x"
proof -
  have x0: "0 < x" using assms(1) by (smt (verit) divide_pos_pos zero_less_power)
  have "\<bar>x\<bar> \<le> 2 ^ 126" using assms x0 by simp
  from f32_round_err [OF this] obtain y where
    y: "f32_round x = Fin y" and e: "\<bar>y - x\<bar> \<le> \<bar>x\<bar> / 2 ^ 24 + 1 / 2 ^ 150" by blast
  have a: "x / 2 ^ 24 \<le> x / 4" using x0 by (simp add: field_simps)
  have "(1::real) / 2 ^ 150 \<le> (1 / 2 ^ 100) / 4" by simp
  also have "\<dots> \<le> x / 4" using assms(1) by (intro divide_right_mono) simp_all
  finally have b: "1 / 2 ^ 150 \<le> x / 4" .
  have "\<bar>y - x\<bar> \<le> x / 2" using e a b x0 by simp
  then have "x / 2 \<le> y \<and> y \<le> 2 * x" using x0 by linarith
  then show ?thesis using y by blast
qed

lemma float_of_int_exact: "\<bar>n\<bar> < 2 ^ 24 \<Longrightarrow> float_of_int n = Fin (real_of_int n)"
  by (simp add: float_of_int_def f32_round_int)

lemma fadd_NaN_right [simp]: "fadd a NaN = NaN" by (cases a) simp_all
lemma fmul_NaN_right [simp]: "fmul a NaN = NaN" by (cases a) simp_all
lemma fdiv_NaN_right [simp]: "fdiv a NaN = NaN" by (cases a) simp_all
lemma flt_NaN_right [simp]: "\<not> flt a NaN" by (cases a) simp_all
lemma fge_NaN [simp]: "\<not> fge NaN b" "\<not> fge a NaN" by (simp_all add: fge_def)

lemma flt_irrefl [simp]: "\<not> flt a a" by (cases a) simp_all

lemma flt_trans: "flt a b \<Longrightarrow> flt b c \<Longrightarrow> flt a c"
  by (cases a; cases b; cases c) simp_all

lemma flt_not_NaN: "flt a b \<Longrightarrow> a \<noteq> NaN \<and> b \<noteq> NaN"
  by (cases a; cases b) simp_all

lemma epsilon_value: "epsilon = Fin (8796093 / 2 ^ 43)"
  unfolding epsilon_def
  by (subst f32_round_normal [of "- 20"])
     (simp_all add: FLT_MAX_def round_half_even_def Let_def)

section \<open>Properties of the child selection\<close>

lemma select_loop_total:
  "scorable h rt \<Longrightarrow> set as \<subseteq> set (legal_actions rt) \<Longrightarrow>
   select_loop nm h rt b c d q pl as acc =
     Some (running_candidates
         (map (\<lambda>a. (a, child_score nm rt (the (legal_child h rt a)) b c d q pl)) as) acc)"
proof (induction as arbitrary: acc)
  case Nil
  then show ?case by simp
next
  case (Cons a as)
  obtain mx lst where acc: "acc = (mx, lst)" by (cases acc)
  from Cons.prems obtain child where look: "legal_child h rt a = Some child"
    and vc: "visit_count child + 1 \<le> INT_MAX" and vr: "INT_MIN \<le> visit_count rt - 1"
    by (auto simp: scorable_def list_all_iff split: option.splits)
  then obtain ch where ch: "get_child rt (word_of_int a) = Some ch"
    and child: "deref h ch = Some child"
    by (auto simp: legal_child_def split: option.splits)
  have rest: "set as \<subseteq> set (legal_actions rt)" using Cons.prems by simp
  show ?case
    using Cons.IH [OF Cons.prems(1) rest] ch child look vc vr by (simp add: acc Let_def)
qed

lemma best_score_Cons:
  "best_score m ((a, s) # xs) = best_score (if flt m s then s else m) xs"
  by (simp add: best_score_def)

lemma best_score_keep:
  "\<forall>(a, s)\<in>set xs. \<not> flt m s \<Longrightarrow> best_score m xs = m"
  by (induction xs arbitrary: m) (auto simp: best_score_def)

lemma best_score_improves:
  "\<exists>(a, s)\<in>set xs. flt m s \<Longrightarrow> flt m (best_score m xs)"
proof (induction xs arbitrary: m)
  case Nil
  then show ?case by simp
next
  case (Cons x xs)
  obtain a s where x: "x = (a, s)" by (cases x)
  show ?case
  proof (cases "flt m s")
    case True
    show ?thesis
    proof (cases "\<exists>(b, t)\<in>set xs. flt s t")
      case ex: True
      from Cons.IH [OF ex] True show ?thesis
        by (simp add: x best_score_Cons flt_trans [OF True])
    next
      case False
      then have "best_score s xs = s" by (intro best_score_keep) auto
      then show ?thesis using True by (simp add: x best_score_Cons)
    qed
  next
    case False
    then have "\<exists>(b, t)\<in>set xs. flt m t" using Cons.prems by (auto simp: x)
    from Cons.IH [OF this] False show ?thesis by (simp add: x best_score_Cons)
  qed
qed

lemma best_score_attained:
  "best_score m xs = m \<or> best_score m xs \<in> snd ` set xs"
proof (induction xs arbitrary: m)
  case Nil
  then show ?case by (simp add: best_score_def)
next
  case (Cons x xs)
  obtain a s where x: "x = (a, s)" by (cases x)
  show ?case using Cons.IH [of "if flt m s then s else m"]
    by (auto simp: x best_score_Cons split: if_splits)
qed

lemma tie_candidates_skip:
  "s \<noteq> best_score m ((a, s) # xs) \<Longrightarrow> best_score m ((a, s) # xs) = best_score m' xs \<Longrightarrow>
   tie_candidates m ((a, s) # xs) = tie_candidates m' xs"
proof -
  assume ne: "s \<noteq> best_score m ((a, s) # xs)"
    and eq: "best_score m ((a, s) # xs) = best_score m' xs"
  show ?thesis unfolding tie_candidates_def eq using ne [unfolded eq] by simp
qed

lemma tie_candidates_hit:
  "s = best_score m ((a, s) # xs) \<Longrightarrow>
   tie_candidates m ((a, s) # xs) =
     a # map fst (filter (\<lambda>(b, t). fge t (fsub s epsilon)) xs)"
  by (simp add: tie_candidates_def)

lemma running_candidates_char:
  "running_candidates xs (mx, lst) =
     (best_score mx xs,
      if \<exists>(a, s)\<in>set xs. flt mx s then tie_candidates mx xs
      else lst @ map fst (filter (\<lambda>(a, s). fge s (fsub mx epsilon)) xs))"
proof (induction xs arbitrary: mx lst)
  case Nil
  then show ?case by (simp add: best_score_def)
next
  case (Cons x xs)
  obtain a s where x: "x = (a, s)" by (cases x)
  show ?case
  proof (cases "flt mx s")
    case True
    have step: "running_candidates (x # xs) (mx, lst) = running_candidates xs (s, [a])"
      using True by (simp add: x)
    have M: "best_score mx ((a, s) # xs) = best_score s xs"
      using True by (simp add: best_score_Cons)
    show ?thesis
    proof (cases "\<exists>(b, t)\<in>set xs. flt s t")
      case ex: True
      have "flt s (best_score s xs)" by (rule best_score_improves [OF ex])
      then have "s \<noteq> best_score mx ((a, s) # xs)" unfolding M by auto
      from tie_candidates_skip [OF this M]
      show ?thesis unfolding step Cons.IH using True ex M by (simp add: x)
    next
      case False
      then have "best_score s xs = s" by (intro best_score_keep) auto
      then have hit: "s = best_score mx ((a, s) # xs)" unfolding M by simp
      show ?thesis unfolding step Cons.IH
        using True False M tie_candidates_hit [OF hit] by (simp add: x)
    qed
  next
    case False
    have M: "best_score mx ((a, s) # xs) = best_score mx xs"
      using False by (simp add: best_score_Cons)
    have tie: "tie_candidates mx ((a, s) # xs) = tie_candidates mx xs"
      if ex: "\<exists>(b, t)\<in>set xs. flt mx t"
    proof -
      have "flt mx (best_score mx xs)" by (rule best_score_improves [OF ex])
      then have "s \<noteq> best_score mx ((a, s) # xs)" unfolding M using False by auto
      from tie_candidates_skip [OF this M] show ?thesis .
    qed
    show ?thesis
    proof (cases "fge s (fsub mx epsilon)")
      case True
      have step: "running_candidates (x # xs) (mx, lst) = running_candidates xs (mx, lst @ [a])"
        using True False by (simp add: x)
      show ?thesis unfolding step Cons.IH using True False M tie by (auto simp: x)
    next
      case nge: False
      have step: "running_candidates (x # xs) (mx, lst) = running_candidates xs (mx, lst)"
        using nge False by (simp add: x)
      show ?thesis unfolding step Cons.IH using nge False M tie by (auto simp: x)
    qed
  qed
qed

lemma tie_candidates_nonempty:
  assumes "\<exists>(a, s)\<in>set xs. flt m s"
  shows "tie_candidates m xs \<noteq> []"
proof -
  have lt: "flt m (best_score m xs)" by (rule best_score_improves [OF assms])
  then have "best_score m xs \<noteq> m" by auto
  then have "best_score m xs \<in> snd ` set xs" using best_score_attained [of m xs] by simp
  then have "dropWhile (\<lambda>(a, s). s \<noteq> best_score m xs) xs \<noteq> []"
    by (auto simp: dropWhile_eq_Nil_conv)
  then show ?thesis by (auto simp: tie_candidates_def split: list.splits)
qed

lemma tie_candidates_legal: "set (tie_candidates m xs) \<subseteq> fst ` set xs"
proof -
  let ?D = "dropWhile (\<lambda>(a, s). s \<noteq> best_score m xs) xs"
  have sub: "set ?D \<subseteq> set xs" by (rule set_dropWhileD [THEN subsetI])
  show ?thesis
  proof (cases ?D)
    case Nil
    show ?thesis unfolding tie_candidates_def Nil by simp
  next
    case (Cons y later)
    obtain a s where y: "y = (a, s)" by (cases y)
    have "set (tie_candidates m xs) \<subseteq> fst ` set ?D"
      unfolding tie_candidates_def Cons y by (auto intro: rev_image_eqI)
    then show ?thesis using sub by blast
  qed
qed

lemma running_candidates_empty:
  "snd (running_candidates xs (mx, [])) = [] \<longleftrightarrow> (\<forall>(a, s)\<in>set xs. \<not> enters mx s)"
proof (cases "\<exists>(a, s)\<in>set xs. flt mx s")
  case True
  then have "tie_candidates mx xs \<noteq> []" by (rule tie_candidates_nonempty)
  moreover have "\<exists>(a, s)\<in>set xs. enters mx s" using True by (auto simp: enters_def)
  ultimately show ?thesis using True by (auto simp: running_candidates_char)
next
  case False
  then show ?thesis
    by (auto simp: running_candidates_char enters_def filter_empty_conv)
qed

lemma running_candidates_legal:
  "set (snd (running_candidates xs (mx, []))) \<subseteq> fst ` set xs"
proof (cases "\<exists>(a, s)\<in>set xs. flt mx s")
  case True
  then have "snd (running_candidates xs (mx, [])) = tie_candidates mx xs"
    by (simp add: running_candidates_char)
  then show ?thesis using tie_candidates_legal [of mx xs] by simp
next
  case False
  then have "snd (running_candidates xs (mx, [])) =
             map fst (filter (\<lambda>(a, s). fge s (fsub mx epsilon)) xs)"
    by (simp add: running_candidates_char)
  then show ?thesis by auto
qed

lemma pb_c0_finite:
  assumes n: "0 \<le> n" "n < 2 ^ 23" and b: "0 < b" "b < 2 ^ 23" and i: "\<bar>init\<bar> \<le> 2 ^ 100"
  shows "\<exists>y. fadd (flog (fdiv (fadd (fadd (float_of_int n) (float_of_int b)) (Fin 1))
                               (float_of_int b)))
                   (Fin init) = Fin y \<and> \<bar>y\<bar> \<le> 2 ^ 103"
proof -
  have fn: "float_of_int n = Fin (real_of_int n)" using n by (intro float_of_int_exact) simp
  have fb: "float_of_int b = Fin (real_of_int b)" using b by (intro float_of_int_exact) simp
  have s1: "fadd (Fin (real_of_int n)) (Fin (real_of_int b)) = Fin (real_of_int (n + b))"
    using f32_round_int [of "n + b"] n b by simp
  have s2: "fadd (Fin (real_of_int (n + b))) (Fin 1) = Fin (real_of_int (n + b + 1))"
    using f32_round_int [of "n + b + 1"] n b by simp
  define x where "x = real_of_int (n + b + 1) / real_of_int b"
  have b0: "0 < real_of_int b" using b by simp
  have x1: "1 \<le> x" unfolding x_def using b0 n by (simp add: field_simps)
  have b1: "1 \<le> real_of_int b" using b by simp
  have "x \<le> real_of_int (n + b + 1) / 1"
    unfolding x_def using b1 n b by (intro divide_left_mono) simp_all
  also have "\<dots> \<le> 2 ^ 24" using n b by simp
  finally have x2: "x \<le> 2 ^ 24" .
  have "1 / 2 ^ 100 \<le> x" using x1 by (rule order_trans [rotated]) simp
  moreover have "x \<le> 2 ^ 126" using x2 by (rule order_trans) simp
  ultimately obtain q where q: "f32_round x = Fin q" and q1: "x / 2 \<le> q" and q2: "q \<le> 2 * x"
    using f32_round_pos by blast
  have qpos: "0 < q" using q1 x1 by linarith
  have s3: "fdiv (Fin (real_of_int (n + b + 1))) (Fin (real_of_int b)) = Fin q"
    using b0 q by (simp add: x_def)
  have "ln q \<le> q - 1" using qpos by (rule ln_le_minus_one)
  then have l_up: "ln q \<le> 2 ^ 25" using q2 x2 by simp
  have "ln (1 / 2) \<le> ln q" using qpos q1 x1 by (subst ln_le_cancel_iff) simp_all
  moreover have "ln (1 / 2 :: real) = - ln 2" by (simp add: ln_div)
  moreover have "ln (2::real) < 1" by (rule ln_2_less_1)
  ultimately have l_lo: "- 1 \<le> ln q" by linarith
  have "\<bar>ln q\<bar> \<le> 2 ^ 25" using l_up l_lo by simp
  from f32_round_finite [OF this] obtain l where
    l: "f32_round (ln q) = Fin l" and lb: "\<bar>l\<bar> \<le> 2 * 2 ^ 25 + 1" by auto
  have s4: "flog (Fin q) = Fin l" using qpos l by simp
  have "\<bar>l + init\<bar> \<le> 2 ^ 101" using lb i by simp
  from f32_round_finite [OF this] obtain y where
    y: "f32_round (l + init) = Fin y" and yb: "\<bar>y\<bar> \<le> 2 * 2 ^ 101 + 1" by auto
  have "fadd (flog (fdiv (fadd (fadd (float_of_int n) (float_of_int b)) (Fin 1))
                               (float_of_int b)))
                   (Fin init) = Fin y"
    by (simp only: fn fb s1 s2 s3 s4) (simp add: y)
  moreover have "\<bar>y\<bar> \<le> 2 ^ 103" using yb by simp
  ultimately show ?thesis by blast
qed

lemma prior_score_zero:
  assumes n: "0 \<le> n" "n < 2 ^ 23" and b: "0 < b" "b < 2 ^ 23" and i: "\<bar>init\<bar> \<le> 2 ^ 100"
    and m: "0 < m" "m < 2 ^ 23" and z: "n = 0 \<or> pr = 0"
  shows "fmul (fmul (fadd (flog (fdiv (fadd (fadd (float_of_int n) (float_of_int b)) (Fin 1))
                                      (float_of_int b)))
                          (Fin init))
                    (fdiv (fsqrt (float_of_int n)) (float_of_int m)))
              (Fin pr) = Fin 0"
proof -
  from pb_c0_finite [OF n b i] obtain y where
    y: "fadd (flog (fdiv (fadd (fadd (float_of_int n) (float_of_int b)) (Fin 1))
                               (float_of_int b)))
                   (Fin init) = Fin y" and yb: "\<bar>y\<bar> \<le> 2 ^ 103" by blast
  have fn: "float_of_int n = Fin (real_of_int n)" using n by (intro float_of_int_exact) simp
  have fm: "float_of_int m = Fin (real_of_int m)" using m by (intro float_of_int_exact) simp
  have n0: "0 \<le> real_of_int n" using n by simp
  have "real_of_int n \<le> 2 ^ 24" using n by simp
  then have "sqrt (real_of_int n) \<le> sqrt (2 ^ 24)" by (simp only: real_sqrt_le_iff)
  also have "sqrt (2 ^ 24 :: real) = 2 ^ 12"
    using real_sqrt_abs2 [of "2 ^ 12"] by (simp add: power2_eq_square)
  finally have "\<bar>sqrt (real_of_int n)\<bar> \<le> 2 ^ 12" using n0 by simp
  from f32_round_finite [OF this] obtain sq where
    sq: "f32_round (sqrt (real_of_int n)) = Fin sq" and sqb: "\<bar>sq\<bar> \<le> 2 * 2 ^ 12 + 1" by auto
  have sq0: "n = 0 \<Longrightarrow> sq = 0" using sq by simp
  have s1: "fsqrt (Fin (real_of_int n)) = Fin sq" using n0 sq by simp
  have m1: "1 \<le> real_of_int m" using m by simp
  have "\<bar>sq / real_of_int m\<bar> \<le> \<bar>sq\<bar>" using m1 by (simp add: field_simps mult_le_cancel_left1)
  then have "\<bar>sq / real_of_int m\<bar> \<le> 2 ^ 14" using sqb by simp
  from f32_round_finite [OF this] obtain r where
    r: "f32_round (sq / real_of_int m) = Fin r" and rb: "\<bar>r\<bar> \<le> 2 * 2 ^ 14 + 1" by auto
  have r0: "n = 0 \<Longrightarrow> r = 0" using r sq0 by simp
  have s2: "fdiv (Fin sq) (Fin (real_of_int m)) = Fin r" using m1 r by simp
  have "\<bar>y * r\<bar> \<le> 2 ^ 103 * 2 ^ 16"
    unfolding abs_mult using yb rb by (intro mult_mono) simp_all
  then have "\<bar>y * r\<bar> \<le> 2 ^ 119" by simp
  from f32_round_finite [OF this] obtain c where
    c: "f32_round (y * r) = Fin c" by auto
  have c0: "n = 0 \<Longrightarrow> c = 0" using c r0 by simp
  have s3: "fmul (Fin y) (Fin r) = Fin c" using c by simp
  have "fmul (Fin c) (Fin pr) = Fin 0" using z c0 by auto
  then show ?thesis by (subst y) (simp only: fn fm s1 s2 s3)
qed

lemma f32_round_half: "f32_round (1 / 2) = Fin (1 / 2)"
  using f32_round_dyadic [of 1 1] by simp

lemma f32_round_tie: "f32_round (1048577 / 2097152) = Fin (1048577 / 2097152)"
  using f32_round_dyadic [of 1048577 21] by simp

lemma scores_S1:
  "legal_scores (CMinMaxStats_normalize stats_unset) heap_S1 root_S1 19652 (5 / 4) 1 0 1
     = [(0, Fin 0), (1, Fin 0)]"
  by (simp add: legal_scores_def legal_child_def child_score_def cucb_score_def Let_def
      prior_score_zero
      CMinMaxStats_normalize_def stats_unset_def heap_S1_def root_S1_def new_CNode_def
      get_child_def deref_def value_of_def)

lemma float_of_int_one: "float_of_int 1 = Fin 1"
  using float_of_int_exact [of 1] by simp

lemma scores_tie:
  "legal_scores (CMinMaxStats_normalize stats_unset) heap_tie (heap_tie ! 0) 19652 (5 / 4) 1 0 1
     = [(0, Fin (1 / 2)), (1, Fin (1048577 / 2097152))]"
  by (simp add: legal_scores_def legal_child_def child_score_def cucb_score_def Let_def
      prior_score_zero fsub_def f32_round_half f32_round_tie float_of_int_one
      CMinMaxStats_normalize_def stats_unset_def heap_tie_def root_S1_def new_CNode_def
      get_child_def deref_def value_float_def)

lemma cucb_score_NaN:
  "t < 0 \<Longrightarrow> cucb_score nm child q r (Fin t) pvp b init d pl = NaN"
  by (simp add: cucb_score_def Let_def)

lemma float_of_int_minus_one: "float_of_int (- 1) = Fin (- 1)"
  using float_of_int_exact [of "- 1"] by simp

lemma scores_expanded:
  "legal_scores (CMinMaxStats_normalize stats_unset) heap_expanded (heap_expanded ! 0) 19652 (5 / 4)
      1 0 1 = [(0, NaN), (1, NaN)]"
  by (simp add: legal_scores_def child_score_def heap_expanded_def root_S1_def new_CNode_def
     float_of_int_minus_one cucb_score_NaN)

lemma margin_tie: "fsub (Fin (1048577 / 2097152)) epsilon = Fin (8388599 / 16777216)"
  unfolding epsilon_value fsub_def
  apply simp
  apply (subst f32_round_normal [of "- 2"])
     apply (simp_all add: FLT_MAX_def round_half_even_def Let_def)
  done

lemma margin_zero: "fsub (Fin 0) epsilon = Fin (- (8796093 / 2 ^ 43))"
  unfolding epsilon_value fsub_def
  using f32_round_dyadic [of "- 8796093" 43] by simp

lemma cselect_child_eval:
  assumes "deref h p = Some rt" "scorable h rt"
  shows "cselect_child cfg nm h p b c d q pl rng k =
     (let lst = snd (running_candidates (legal_scores nm h rt b c d q pl)
                       (Fin (FLOAT_MIN cfg), []))
      in if length lst > 0
         then (if NUM_ACTION_HEADS cfg = 0 then None
               else Some ((replicate (NUM_ACTION_HEADS cfg) (-1))
                            [0 := lst ! (rng k mod length lst)], k + 1))
         else Some (replicate (NUM_ACTION_HEADS cfg) (-1), k))"
  using assms(1) select_loop_total [OF assms(2) subset_refl]
  by (simp add: cselect_child_def legal_scores_def Let_def split: prod.splits)

lemma scorable_S1: "scorable heap_S1 root_S1"
  by (simp add: scorable_def legal_child_def get_child_def deref_def heap_S1_def root_S1_def
      new_CNode_def INT_MIN_def INT_MAX_def)

lemma scorable_tie: "scorable heap_tie (heap_tie ! 0)"
  by (simp add: scorable_def legal_child_def get_child_def deref_def heap_tie_def root_S1_def
      new_CNode_def INT_MIN_def INT_MAX_def)

lemma scorable_expanded: "scorable heap_expanded (heap_expanded ! 0)"
  by (simp add: scorable_def legal_child_def get_child_def deref_def heap_expanded_def
      root_S1_def new_CNode_def INT_MIN_def INT_MAX_def)

text \<open>
  C5, as stated: the pick is among exactly the legal children within \<open>1e-6\<close> of the
  maximum score.  In \<open>heap_tie\<close> the scores are \<open>0.5\<close> and \<open>0.5 + 2^-21\<close>: child 0 is
  within the margin of the maximum, in exact and in single-precision arithmetic, but the
  list is cleared when child 1 improves on it, and action 1 is returned although
  \<open>rand()\<close> returns 0.
\<close>

theorem cselect_child_earlier_tie_counterexample:
  "legal_scores (CMinMaxStats_normalize stats_unset) heap_tie (heap_tie ! 0) 19652 (5 / 4) 1 0 1
     = [(0, Fin (1 / 2)), (1, Fin (1048577 / 2097152))] \<and>
   (1048577 / 2097152 - 1 / 2 :: real) \<le> 1 / 1000000 \<and>
   fge (Fin (1 / 2)) (fsub (Fin (1048577 / 2097152)) epsilon) \<and>
   cselect_child cfg_1x2 (CMinMaxStats_normalize stats_unset) heap_tie 0 19652 (5 / 4) 1 0 1
     rand_zero 0 = Some ([1], 1)"
proof -
  have d: "deref heap_tie 0 = Some (heap_tie ! 0)" by (simp add: deref_def heap_tie_def)
  have c: "cselect_child cfg_1x2 (CMinMaxStats_normalize stats_unset) heap_tie 0 19652 (5 / 4) 1 0 1
     rand_zero 0 = Some ([1], 1)"
    by (simp add: cselect_child_eval [OF d scorable_tie] scores_tie cfg_1x2_def rand_zero_def)
  have m: "fge (Fin (1 / 2)) (fsub (Fin (1048577 / 2097152)) epsilon)"
    by (simp add: margin_tie fge_def)
  show ?thesis using scores_tie m c by simp
qed

text \<open>
  C5, amended: on a node all of whose legal children exist, whose visit counts keep
  \<open>root->visit_count - 1\<close> and \<open>child->visit_count + 1\<close> within \<open>int\<close>, and one of
  whose scores exceeds \<open>FLOAT_MIN\<close>, \<open>cselect_child\<close> (with a positive
  \<open>NUM_ACTION_HEADS\<close>) returns, in the first slot, the entry at index \<open>rand() % size\<close>
  of the list that holds the first child attaining the largest score and, of the children
  after it, exactly those whose score is at least the single-precision difference of the
  largest score and \<open>1e-6\<close>; the list is not empty and holds only legal actions, and
  \<open>rand()\<close> is called once.
\<close>

theorem cselect_child_candidates:
  assumes root: "deref h p = Some root_node"
    and heads: "0 < NUM_ACTION_HEADS cfg"
    and sc: "scorable h root_node"
    and big: "\<exists>(a, s)\<in>set (legal_scores normalise h root_node pb_c_base pb_c_init
                discount_factor mean_q players). flt (Fin (FLOAT_MIN cfg)) s"
  shows "tie_candidates (Fin (FLOAT_MIN cfg)) (legal_scores normalise h root_node pb_c_base
                pb_c_init discount_factor mean_q players) \<noteq> [] \<and>
         set (tie_candidates (Fin (FLOAT_MIN cfg)) (legal_scores normalise h root_node pb_c_base
                pb_c_init discount_factor mean_q players)) \<subseteq> set (legal_actions root_node) \<and>
         cselect_child cfg normalise h p pb_c_base pb_c_init discount_factor mean_q players
                rng k =
           Some ((replicate (NUM_ACTION_HEADS cfg) (-1))
                   [0 := tie_candidates (Fin (FLOAT_MIN cfg)) (legal_scores normalise h root_node
                            pb_c_base pb_c_init discount_factor mean_q players)
                         ! (rng k mod length (tie_candidates (Fin (FLOAT_MIN cfg))
                              (legal_scores normalise h root_node pb_c_base pb_c_init
                                 discount_factor mean_q players)))],
                 k + 1)"
proof -
  define xs where "xs = legal_scores normalise h root_node pb_c_base pb_c_init
                discount_factor mean_q players"
  have big': "\<exists>(a, s)\<in>set xs. flt (Fin (FLOAT_MIN cfg)) s" using big by (simp add: xs_def)
  have r: "snd (running_candidates xs (Fin (FLOAT_MIN cfg), [])) =
           tie_candidates (Fin (FLOAT_MIN cfg)) xs"
    using big' by (simp add: running_candidates_char)
  have ne: "tie_candidates (Fin (FLOAT_MIN cfg)) xs \<noteq> []"
    by (rule tie_candidates_nonempty [OF big'])
  have "fst ` set xs = set (legal_actions root_node)"
    by (force simp: xs_def legal_scores_def)
  then have sub: "set (tie_candidates (Fin (FLOAT_MIN cfg)) xs) \<subseteq> set (legal_actions root_node)"
    using tie_candidates_legal [of "Fin (FLOAT_MIN cfg)" xs] by simp
  have "cselect_child cfg normalise h p pb_c_base pb_c_init discount_factor mean_q players
                rng k =
           Some ((replicate (NUM_ACTION_HEADS cfg) (-1))
                   [0 := tie_candidates (Fin (FLOAT_MIN cfg)) xs
                         ! (rng k mod length (tie_candidates (Fin (FLOAT_MIN cfg)) xs))], k + 1)"
    using ne heads r by (simp add: cselect_child_eval [OF root sc] xs_def [symmetric] Let_def)
  then show ?thesis using ne sub unfolding xs_def by blast
qed

text \<open>
  On the freshly prepared root both children score 0; both are candidates, and the second
  call of \<open>rand()\<close>, returning 1, picks action 1.
\<close>

theorem cselect_child_candidates_witness:
  "tie_candidates (Fin (FLOAT_MIN cfg_1x2)) [(0, Fin 0), (1, Fin 0)] = [0, 1] \<and>
   cselect_child cfg_1x2 (CMinMaxStats_normalize stats_unset) heap_S1 0 19652 (5 / 4) 1
     0 1 rand_count 1 = Some ([1], 2)"
proof -
  have root: "deref heap_S1 0 = Some root_S1" by (simp add: deref_def heap_S1_def)
  have heads: "0 < NUM_ACTION_HEADS cfg_1x2" by (simp add: cfg_1x2_def)
  have big: "\<exists>(a, s)\<in>set (legal_scores (CMinMaxStats_normalize stats_unset)
      heap_S1 root_S1 19652 (5 / 4) 1 0 1). flt (Fin (FLOAT_MIN cfg_1x2)) s"
    by (simp add: scores_S1 cfg_1x2_def)
  have t: "tie_candidates (Fin (FLOAT_MIN cfg_1x2)) [(0, Fin 0), (1, Fin 0)] = [0, 1]"
    by (simp add: tie_candidates_def best_score_def margin_zero fge_def cfg_1x2_def)
  from cselect_child_candidates [OF root heads scorable_S1 big, of rand_count 1] t
  show ?thesis by (simp add: scores_S1 cfg_1x2_def rand_count_def)
qed

text \<open>
  C8, as stated: on a node whose legal children all exist, as after \<open>expand\<close>, the
  fallback vector of \<open>-1\<close>s is unreachable.  \<open>heap_expanded\<close> is the store that
  \<open>expand\<close> builds from a fresh root: the root's \<open>visit_count\<close> is 0, so that
  \<open>total_children_visit_counts\<close> is \<open>-1\<close>, its square root is NaN, and so is every
  score; no score passes a comparison, the list stays empty and the fallback is returned.
\<close>

theorem cselect_child_fallback_counterexample:
  "expand cfg_1x2 0 (-1) 0 0 0 [0, 0] [new_CNode 0 []] = Some heap_expanded \<and>
   legal_actions (heap_expanded ! 0) = [0, 1] \<and>
   legal_child heap_expanded (heap_expanded ! 0) 0 = Some (heap_expanded ! 1) \<and>
   legal_child heap_expanded (heap_expanded ! 0) 1 = Some (heap_expanded ! 2) \<and>
   cselect_child cfg_1x2 (CMinMaxStats_normalize stats_unset) heap_expanded 0 19652 (5 / 4)
     1 0 1 rand_zero 0 = Some ([-1], 0)"
proof -
  have e: "expand cfg_1x2 0 (-1) 0 0 0 [0, 0] [new_CNode 0 []] = Some heap_expanded"
    by (simp add: expand_def deref_def policy_max_of_def policy_sum_of_def cfg_1x2_def
      new_CNode_def root_S1_def Let_def upt_rec [of 0] heap_expanded_def)
  have l: "legal_actions (heap_expanded ! 0) = [0, 1]"
    "legal_child heap_expanded (heap_expanded ! 0) 0 = Some (heap_expanded ! 1)"
    "legal_child heap_expanded (heap_expanded ! 0) 1 = Some (heap_expanded ! 2)"
    by (simp_all add: legal_child_def get_child_def deref_def heap_expanded_def root_S1_def
        new_CNode_def)
  have d: "deref heap_expanded 0 = Some (heap_expanded ! 0)"
    by (simp add: deref_def heap_expanded_def)
  have c: "cselect_child cfg_1x2 (CMinMaxStats_normalize stats_unset) heap_expanded 0 19652 (5 / 4)
     1 0 1 rand_zero 0 = Some ([-1], 0)"
    by (simp add: cselect_child_eval [OF d scorable_expanded] scores_expanded cfg_1x2_def)
  show ?thesis using e l c by simp
qed

text \<open>
  C8, amended: for a node whose legal children all exist and whose visit counts keep
  \<open>root->visit_count - 1\<close> and \<open>child->visit_count + 1\<close> within \<open>int\<close>,
  \<open>cselect_child\<close> (with a positive \<open>NUM_ACTION_HEADS\<close>) returns a vector of
  \<open>NUM_ACTION_HEADS\<close> entries whose first entry is one of the node's legal actions and
  whose other entries are \<open>-1\<close> when the score \<open>s\<close> of some legal child passes one of
  the comparisons \<open>FLOAT_MIN < s\<close> and \<open>s >= FLOAT_MIN - 1e-6\<close>, and returns the
  vector of \<open>-1\<close>s, without calling \<open>rand()\<close>, when no score does.
\<close>

theorem cselect_child_returns_legal:
  assumes root: "deref h p = Some root_node"
    and heads: "0 < NUM_ACTION_HEADS cfg"
    and sc: "scorable h root_node"
  shows "if \<exists>(a, s)\<in>set (legal_scores normalise h root_node pb_c_base pb_c_init
                  discount_factor mean_q players). enters (Fin (FLOAT_MIN cfg)) s
         then \<exists>a\<in>set (legal_actions root_node).
                cselect_child cfg normalise h p pb_c_base pb_c_init discount_factor mean_q
                  players rng k =
                Some ((replicate (NUM_ACTION_HEADS cfg) (-1))[0 := a], k + 1)
         else cselect_child cfg normalise h p pb_c_base pb_c_init discount_factor mean_q
                  players rng k = Some (replicate (NUM_ACTION_HEADS cfg) (-1), k)"
proof -
  define xs where "xs = legal_scores normalise h root_node pb_c_base pb_c_init
                discount_factor mean_q players"
  define lst where "lst = snd (running_candidates xs (Fin (FLOAT_MIN cfg), []))"
  have legal: "fst ` set xs = set (legal_actions root_node)"
    by (force simp: xs_def legal_scores_def)
  have sub: "set lst \<subseteq> set (legal_actions root_node)"
    using running_candidates_legal [of xs "Fin (FLOAT_MIN cfg)"] legal by (simp add: lst_def)
  have empty: "lst = [] \<longleftrightarrow> (\<forall>(a, s)\<in>set xs. \<not> enters (Fin (FLOAT_MIN cfg)) s)"
    unfolding lst_def by (rule running_candidates_empty)
  show ?thesis
  proof (cases "\<exists>(a, s)\<in>set xs. enters (Fin (FLOAT_MIN cfg)) s")
    case True
    then have ne: "lst \<noteq> []" using empty by auto
    then have "lst ! (rng k mod length lst) \<in> set lst" by simp
    then have pick: "lst ! (rng k mod length lst) \<in> set (legal_actions root_node)"
      using sub by blast
    have "cselect_child cfg normalise h p pb_c_base pb_c_init discount_factor mean_q
            players rng k =
          Some ((replicate (NUM_ACTION_HEADS cfg) (-1))[0 := lst ! (rng k mod length lst)], k + 1)"
      using ne heads
      by (simp add: cselect_child_eval [OF root sc] xs_def [symmetric] lst_def [symmetric])
    then show ?thesis using True pick unfolding xs_def by auto
  next
    case False
    then have "lst = []" using empty by auto
    then have "cselect_child cfg normalise h p pb_c_base pb_c_init discount_factor mean_q
            players rng k = Some (replicate (NUM_ACTION_HEADS cfg) (-1), k)"
      by (simp add: cselect_child_eval [OF root sc] xs_def [symmetric] lst_def [symmetric])
    then show ?thesis using False unfolding xs_def by auto
  qed
qed

text \<open>
  On the freshly prepared root, whose \<open>visit_count\<close> is 1, both scores are 0 and a legal
  action is returned; on the root that has only been expanded no score passes.
\<close>

theorem cselect_child_returns_legal_witness:
  "(\<exists>a\<in>set (legal_actions root_S1).
      cselect_child cfg_1x2 (CMinMaxStats_normalize stats_unset) heap_S1 0 19652 (5 / 4)
        1 0 1 rand_count 1 =
      Some ((replicate (NUM_ACTION_HEADS cfg_1x2) (-1))[0 := a], 1 + 1)) \<and>
   cselect_child cfg_1x2 (CMinMaxStats_normalize stats_unset) heap_expanded 0 19652 (5 / 4)
        1 0 1 rand_count 1 = Some (replicate (NUM_ACTION_HEADS cfg_1x2) (-1), 1)"
proof -
  have root: "deref heap_S1 0 = Some root_S1" by (simp add: deref_def heap_S1_def)
  have root': "deref heap_expanded 0 = Some (heap_expanded ! 0)"
    by (simp add: deref_def heap_expanded_def)
  have heads: "0 < NUM_ACTION_HEADS cfg_1x2" by (simp add: cfg_1x2_def)
  have yes: "\<exists>(a, s)\<in>set (legal_scores (CMinMaxStats_normalize stats_unset)
      heap_S1 root_S1 19652 (5 / 4) 1 0 1). enters (Fin (FLOAT_MIN cfg_1x2)) s"
    by (simp add: scores_S1 cfg_1x2_def enters_def)
  have no: "\<not> (\<exists>(a, s)\<in>set (legal_scores (CMinMaxStats_normalize stats_unset)
      heap_expanded (heap_expanded ! 0) 19652 (5 / 4) 1 0 1).
        enters (Fin (FLOAT_MIN cfg_1x2)) s)"
    by (simp add: scores_expanded enters_def)
  from cselect_child_returns_legal [OF root heads scorable_S1, of
      "CMinMaxStats_normalize stats_unset" 19652 "5 / 4" 1 0 1 rand_count 1] yes
  have a: "\<exists>a\<in>set (legal_actions root_S1).
      cselect_child cfg_1x2 (CMinMaxStats_normalize stats_unset) heap_S1 0 19652 (5 / 4)
        1 0 1 rand_count 1 =
      Some ((replicate (NUM_ACTION_HEADS cfg_1x2) (-1))[0 := a], 1 + 1)"
    by (simp only: if_True)
  from cselect_child_returns_legal [OF root' heads scorable_expanded, of
      "CMinMaxStats_normalize stats_unset" 19652 "5 / 4" 1 0 1 rand_count 1] no
  have b: "cselect_child cfg_1x2 (CMinMaxStats_normalize stats_unset) heap_expanded 0 19652 (5 / 4)
        1 0 1 rand_count 1 = Some (replicate (NUM_ACTION_HEADS cfg_1x2) (-1), 1)"
    by (simp only: if_False)
  show ?thesis using a b by blast
qed

section \<open>Unvisited nodes have value zero\<close>

lemma node_inv_new: "node_inv (new_CNode p legal)"
  by (simp add: node_inv_def new_CNode_def value_of_def)

lemma heap_inv_update: "heap_inv h \<Longrightarrow> node_inv n \<Longrightarrow> heap_inv (h[p := n])"
  unfolding heap_inv_def using set_update_subset_insert [of h p n] by auto

lemma heap_inv_append: "heap_inv h \<Longrightarrow> node_inv n \<Longrightarrow> heap_inv (h @ [n])"
  by (simp add: heap_inv_def)

lemma heap_inv_nth: "heap_inv h \<Longrightarrow> p < length h \<Longrightarrow> node_inv (h ! p)"
  by (simp add: heap_inv_def)

lemma heap_inv_deref: "heap_inv h \<Longrightarrow> deref h p = Some n \<Longrightarrow> node_inv n"
  by (auto simp: deref_def heap_inv_nth split: if_splits)

lemma node_inv_frame:
  "node_inv n \<Longrightarrow> visit_count n' = visit_count n \<Longrightarrow> value_sum n' = value_sum n \<Longrightarrow> node_inv n'"
  by (simp add: node_inv_def value_of_def)

lemma node_inv_incr:
  "0 \<le> visit_count n \<Longrightarrow> incr_visit_count n = Some n' \<Longrightarrow> node_inv n'"
  by (auto simp: incr_visit_count_def node_inv_def split: if_splits)

lemma heap_inv_expand_children:
  "heap_inv h \<Longrightarrow> p < length h \<Longrightarrow> heap_inv (expand_children pl pm ps p as h)"
proof (induction as arbitrary: h)
  case Nil
  then show ?case by simp
next
  case (Cons a as)
  let ?h1 = "h @ [new_CNode (exp (pl ! nat a - pm) / ps) []]"
  let ?h2 = "?h1[p := (?h1 ! p)\<lparr> children := AList.update (nat a) (length h) (children (?h1 ! p)) \<rparr>]"
  have h1: "heap_inv ?h1" using Cons.prems(1) by (rule heap_inv_append) (rule node_inv_new)
  have "node_inv (?h1 ! p)" using h1 Cons.prems(2) by (intro heap_inv_nth) simp_all
  then have "node_inv ((?h1 ! p)\<lparr> children := AList.update (nat a) (length h) (children (?h1 ! p)) \<rparr>)"
    by (rule node_inv_frame) simp_all
  with h1 have "heap_inv ?h2" by (rule heap_inv_update)
  moreover have "p < length ?h2" using Cons.prems(2) by simp
  ultimately have "heap_inv (expand_children pl pm ps p as ?h2)" by (rule Cons.IH)
  then show ?case by (simp add: Let_def)
qed

lemma heap_inv_expand:
  assumes "heap_inv h" "expand cfg p tp idx bidx vp pl h = Some h'"
  shows "heap_inv h'"
proof -
  from assms(2) obtain node where node: "deref h p = Some node"
    by (auto simp: expand_def split: option.splits)
  then have p: "p < length h" by (auto simp: deref_def split: if_splits)
  let ?legal = "if legal_actions node = [] then map int [0..<length pl] else legal_actions node"
  let ?node1 = "node\<lparr> to_play := tp, current_latent_state_index := idx, batch_index := bidx,
                     value_prefix := vp, legal_actions := ?legal \<rparr>"
  have "node_inv node" using assms(1) node by (rule heap_inv_deref)
  then have "node_inv ?node1" by (rule node_inv_frame) simp_all
  with assms(1) have "heap_inv (h[p := ?node1])" by (rule heap_inv_update)
  then have "heap_inv (expand_children pl pm ps p ?legal (h[p := ?node1]))" for pm ps
    using p by (intro heap_inv_expand_children) simp_all
  then show ?thesis using assms(2) node by (auto simp: expand_def Let_def split: if_splits)
qed

lemma heap_inv_add_noise_loop:
  "heap_inv h \<Longrightarrow> add_noise_loop f ns p as i h = Some h' \<Longrightarrow> heap_inv h'"
proof (induction as arbitrary: i h)
  case Nil
  then show ?case by simp
next
  case (Cons a as)
  from Cons.prems(2) obtain node c child where
    node: "deref h p = Some node"
    and c: "get_child node (word_of_int a) = Some c"
    and child: "deref h c = Some child"
    and rest: "add_noise_loop f ns p as (i + 1)
                 (h[c := child\<lparr> prior := prior child * (1 - f) + (ns ! i) * f \<rparr>]) = Some h'"
    by (auto split: if_splits option.splits)
  have "node_inv child" using Cons.prems(1) child by (rule heap_inv_deref)
  then have "node_inv (child\<lparr> prior := prior child * (1 - f) + (ns ! i) * f \<rparr>)"
    by (rule node_inv_frame) simp_all
  with Cons.prems(1) have "heap_inv (h[c := child\<lparr> prior := prior child * (1 - f) + (ns ! i) * f \<rparr>])"
    by (rule heap_inv_update)
  from Cons.IH [OF this rest] show ?case .
qed

lemma heap_inv_add_exploration_noise:
  "heap_inv h \<Longrightarrow> add_exploration_noise f ns p h = Some h' \<Longrightarrow> heap_inv h'"
  by (auto simp: add_exploration_noise_def split: option.splits
      intro: heap_inv_add_noise_loop)

lemma heap_inv_prepare_loop:
  "heap_inv h \<Longrightarrow> prepare_loop cfg w ns vps pols tpb rs is h = Some h' \<Longrightarrow> heap_inv h'"
proof (induction "is" arbitrary: h)
  case Nil
  then show ?case by simp
next
  case (Cons i "is")
  from Cons.prems(2) obtain h1 h2 n n' where
    e: "expand cfg (rs ! i) (tpb ! i) 0 (int i) (vps ! i) (pols ! i) h = Some h1"
    and a: "add_exploration_noise w (ns ! i) (rs ! i) h1 = Some h2"
    and d: "deref h2 (rs ! i) = Some n"
    and v: "incr_visit_count n = Some n'"
    and rest: "prepare_loop cfg w ns vps pols tpb rs is (h2[rs ! i := n']) = Some h'"
    by (auto split: if_splits option.splits)
  have h1: "heap_inv h1" using Cons.prems(1) e by (rule heap_inv_expand)
  have h2: "heap_inv h2" using h1 a by (rule heap_inv_add_exploration_noise)
  have "node_inv n" using h2 d by (rule heap_inv_deref)
  then have "0 \<le> visit_count n" by (simp add: node_inv_def)
  then have "node_inv n'" using v by (rule node_inv_incr)
  with h2 have "heap_inv (h2[rs ! i := n'])" by (rule heap_inv_update)
  from Cons.IH [OF this rest] show ?case .
qed

lemma heap_inv_prepare:
  "heap_inv h \<Longrightarrow> prepare cfg R w ns vps pols tpb h = Some h' \<Longrightarrow> heap_inv h'"
  unfolding prepare_def by (rule heap_inv_prepare_loop)

lemma heap_inv_backpropagate_bot:
  "heap_inv h \<Longrightarrow> backpropagate_bot upd path d n bv (h, st) = Some (h', st') \<Longrightarrow> heap_inv h'"
proof (induction n arbitrary: bv h st)
  case 0
  then show ?case by simp
next
  case (Suc i)
  from Suc.prems(2) obtain node0 node bv' st1 where
    d: "deref h (path ! i) = Some node0"
    and v: "incr_visit_count (node0\<lparr> value_sum := value_sum node0 + bv \<rparr>) = Some node"
    and rest: "backpropagate_bot upd path d i bv' (h[path ! i := node], st1) = Some (h', st')"
    by (auto simp: Let_def split: if_splits option.splits)
  have "node_inv node0" using Suc.prems(1) d by (rule heap_inv_deref)
  then have "0 \<le> visit_count (node0\<lparr> value_sum := value_sum node0 + bv \<rparr>)"
    by (simp add: node_inv_def)
  then have "node_inv node" using v by (rule node_inv_incr)
  with Suc.prems(1) have "heap_inv (h[path ! i := node])" by (rule heap_inv_update)
  from Suc.IH [OF this rest] show ?case .
qed

lemma heap_inv_backpropagate_self:
  "heap_inv h \<Longrightarrow> backpropagate_self upd path tp d n bv (h, st) = Some (h', st') \<Longrightarrow> heap_inv h'"
proof (induction n arbitrary: bv h st)
  case 0
  then show ?case by simp
next
  case (Suc i)
  from Suc.prems(2) obtain node0 node bv' st1 where
    d: "deref h (path ! i) = Some node0"
    and v: "incr_visit_count (node0\<lparr> value_sum := (if to_play node0 = tp
               then value_sum node0 + bv else value_sum node0 + - bv) \<rparr>) = Some node"
    and rest: "backpropagate_self upd path tp d i bv' (h[path ! i := node], st1) = Some (h', st')"
    by (auto simp: Let_def split: if_splits option.splits)
  have "node_inv node0" using Suc.prems(1) d by (rule heap_inv_deref)
  then have "0 \<le> visit_count (node0\<lparr> value_sum := (if to_play node0 = tp
               then value_sum node0 + bv else value_sum node0 + - bv) \<rparr>)"
    by (simp add: node_inv_def)
  then have "node_inv node" using v by (rule node_inv_incr)
  with Suc.prems(1) have "heap_inv (h[path ! i := node])" by (rule heap_inv_update)
  from Suc.IH [OF this rest] show ?case .
qed

lemma heap_inv_cbackpropagate:
  "heap_inv h \<Longrightarrow> cbackpropagate upd path st tp v d h = Some (h', st') \<Longrightarrow> heap_inv h'"
  by (auto simp: cbackpropagate_def split: if_splits
      intro: heap_inv_backpropagate_bot heap_inv_backpropagate_self)

text \<open>
  C7.  For every node, \<open>visit_count == 0\<close> implies \<open>value_sum == 0\<close> and
  \<open>value() == 0\<close>.  The implication is proved together with \<open>0 \<le> visit_count\<close> (the
  invariant \<open>heap_inv\<close>), which a freshly constructed node satisfies and which
  \<open>expand\<close>, \<open>add_exploration_noise\<close>, \<open>prepare\<close> and \<open>cbackpropagate\<close> preserve.
\<close>

theorem visit_count_zero_invariant:
  "node_inv (new_CNode pr legal) \<and>
   (heap_inv h \<longrightarrow> (\<forall>n\<in>set h. visit_count n = 0 \<longrightarrow> value_sum n = 0 \<and> value_of n = 0)) \<and>
   (heap_inv h \<longrightarrow> expand cfg p tp idx bidx vp pl h = Some h1 \<longrightarrow> heap_inv h1) \<and>
   (heap_inv h \<longrightarrow> add_exploration_noise f ns p h = Some h2 \<longrightarrow> heap_inv h2) \<and>
   (heap_inv h \<longrightarrow> prepare cfg R w nss vps pols tpb h = Some h3 \<longrightarrow> heap_inv h3) \<and>
   (heap_inv h \<longrightarrow> cbackpropagate upd path st tp' v d h = Some (h4, st') \<longrightarrow> heap_inv h4)"
proof (intro conjI impI)
  show "node_inv (new_CNode pr legal)" by (rule node_inv_new)
  show "\<forall>n\<in>set h. visit_count n = 0 \<longrightarrow> value_sum n = 0 \<and> value_of n = 0" if "heap_inv h"
    using that by (simp add: heap_inv_def node_inv_def)
  show "heap_inv h1" if "heap_inv h" "expand cfg p tp idx bidx vp pl h = Some h1"
    using that by (rule heap_inv_expand)
  show "heap_inv h2" if "heap_inv h" "add_exploration_noise f ns p h = Some h2"
    using that by (rule heap_inv_add_exploration_noise)
  show "heap_inv h3" if "heap_inv h" "prepare cfg R w nss vps pols tpb h = Some h3"
    using that by (rule heap_inv_prepare)
  show "heap_inv h4" if "heap_inv h" "cbackpropagate upd path st tp' v d h = Some (h4, st')"
    using that by (rule heap_inv_cbackpropagate)
qed

text \<open>
  The fresh root satisfies the invariant, so the store that \<open>prepare\<close> builds from it
  does, and its unvisited first child has \<open>value_sum = 0\<close> and \<open>value() = 0\<close>.
\<close>

theorem visit_count_zero_invariant_witness:
  "heap_inv [new_CNode 0 []] \<and> heap_inv heap_S1 \<and>
   value_sum (heap_S1 ! 1) = 0 \<and> value_of (heap_S1 ! 1) = 0"
proof -
  note fresh_rule = visit_count_zero_invariant [THEN conjunct1]
  note zero_rule = visit_count_zero_invariant [THEN conjunct2, THEN conjunct1, rule_format]
  note prepare_rule = visit_count_zero_invariant
    [THEN conjunct2, THEN conjunct2, THEN conjunct2, THEN conjunct2, THEN conjunct1, rule_format]
  have "node_inv (new_CNode 0 [])" by (rule fresh_rule)
  then have fresh: "heap_inv [new_CNode 0 []]" by (simp add: heap_inv_def)
  have prep: "heap_inv heap_S1" by (rule prepare_rule [OF fresh prepare_S1])
  have "heap_S1 ! 1 \<in> set heap_S1" "visit_count (heap_S1 ! 1) = 0"
    by (simp_all add: heap_S1_def new_CNode_def)
  then have "value_sum (heap_S1 ! 1) = 0 \<and> value_of (heap_S1 ! 1) = 0"
    by (rule zero_rule [OF prep])
  then show ?thesis using fresh prep by simp
qed

section \<open>Two roots in one batch\<close>





section \<open>The player count\<close>









section \<open>Batch elements\<close>




lemma new_CRoots_two:
  "new_CRoots 2 [[], []] [] = Some (roots_two, [new_CNode 0 [], new_CNode 0 []])"
  by (simp add: new_CRoots_def roots_two_def numeral_2_eq_2)








































end
